theory Spec2Isabelle
  imports Complex_Main "HOL-Library.AList"
begin

section \<open>Topic bus: glob matching of topics (ellis/pubsub.py)\<close>

text \<open>
  \<^verbatim>\<open>Subscription.matches(topic)\<close> is \<^verbatim>\<open>fnmatch.fnmatch(topic, self.pattern)\<close>.
  On a POSIX host \<^verbatim>\<open>os.path.normcase\<close> is the identity, so the call is
  \<^verbatim>\<open>fnmatchcase\<close>: the pattern is translated to a regular expression
  (\<^verbatim>\<open>fnmatch.translate\<close>) which is matched against the whole topic. The model below
  follows \<^verbatim>\<open>translate\<close> of CPython 3.9 and later: it reads the pattern from the left
  into a list of pieces, one per \<^verbatim>\<open>*\<close>, \<^verbatim>\<open>?\<close>, bracket expression or
  literal character.
\<close>

datatype atom =
    Ch char  \<comment> \<open>one character of a bracket expression, taken literally\<close>
  | Hy       \<comment> \<open>the unescaped hyphen that joins two chunks into a range\<close>

datatype piece =
    STAR                  \<comment> \<open>\<^verbatim>\<open>*\<close>\<close>
  | AnyChar               \<comment> \<open>\<^verbatim>\<open>?\<close>, and the negated empty range: the regex \<^verbatim>\<open>.\<close> under \<^verbatim>\<open>(?s)\<close>\<close>
  | Never                 \<comment> \<open>the empty range, \<^verbatim>\<open>(?!)\<close>\<close>
  | CharSet bool "atom list"  \<comment> \<open>\<^verbatim>\<open>[stuff]\<close>; the flag says \<^verbatim>\<open>[^stuff]\<close>\<close>
  | Lit char              \<comment> \<open>\<^verbatim>\<open>re.escape(c)\<close>\<close>

text \<open>The scan \<^verbatim>\<open>while j < n and pat[j] != ']'\<close>: the text before the next
  \<^verbatim>\<open>]\<close> and the text after it, or nothing when the pattern ends first.\<close>

fun find_close :: "string \<Rightarrow> (string \<times> string) option" where
  "find_close [] = None"
| "find_close (c # cs) =
     (if c = CHR '']'' then Some ([], cs)
      else (case find_close cs of
              None \<Rightarrow> None
            | Some (a, b) \<Rightarrow> Some (c # a, b)))"

text \<open>The extent of a bracket expression, given the pattern after its \<^verbatim>\<open>[\<close>: an
  exclamation mark and then a closing bracket that come first belong to the expression.
  The result is \<^verbatim>\<open>stuff = pat[i:j]\<close> and the pattern from \<^verbatim>\<open>j + 1\<close>.\<close>

definition class_span :: "string \<Rightarrow> (string \<times> string) option" where
  "class_span rest =
     (let (neg, r1) = (case rest of
                         c # cs \<Rightarrow> if c = CHR ''!'' then ([c], cs) else ([], rest)
                       | [] \<Rightarrow> ([], []));
          (br, r2) = (case r1 of
                        c # cs \<Rightarrow> if c = CHR '']'' then ([c], cs) else ([], r1)
                      | [] \<Rightarrow> ([], []))
      in (case find_close r2 of
            None \<Rightarrow> None
          | Some (mid, after) \<Rightarrow> Some (neg @ br @ mid, after)))"

text \<open>Splitting \<^verbatim>\<open>stuff\<close> at its range hyphens: \<^verbatim>\<open>pat.find('-', k, j)\<close> with
  \<^verbatim>\<open>k\<close> first one (two after \<^verbatim>\<open>!\<close>) and then three past the hyphen found, so
  the first argument counts the characters in which a hyphen is not a range hyphen.\<close>

fun split_chunks :: "nat \<Rightarrow> string \<Rightarrow> string \<Rightarrow> string list" where
  "split_chunks skip cur [] = [cur]"
| "split_chunks skip cur (c # cs) =
     (if skip = 0 \<and> c = CHR ''-'' then cur # split_chunks 2 [] cs
      else split_chunks (skip - 1) (cur @ [c]) cs)"

text \<open>\<^verbatim>\<open>if chunk: chunks.append(chunk) else: chunks[-1] += '-'\<close>\<close>

fun fix_last :: "string list \<Rightarrow> string list" where
  "fix_last [] = []"
| "fix_last [c] = [c]"
| "fix_last [c, d] = (if d = [] then [c @ ''-''] else [c, d])"
| "fix_last (c # cs) = c # fix_last cs"

text \<open>Removing the empty ranges, from the right as the source's loop does. Both chunks
  of a comparison are non-empty whenever the source reaches it; the guard keeps the
  function total.\<close>

fun merge_chunks :: "string list \<Rightarrow> string list" where
  "merge_chunks [] = []"
| "merge_chunks [c] = [c]"
| "merge_chunks (c # cs) =
     (case merge_chunks cs of
        [] \<Rightarrow> [c]
      | d # ds \<Rightarrow>
          if c \<noteq> [] \<and> d \<noteq> [] \<and> (of_char (last c) :: nat) > of_char (hd d)
          then (butlast c @ tl d) # ds
          else c # d # ds)"

fun join_chunks :: "string list \<Rightarrow> atom list" where
  "join_chunks [] = []"
| "join_chunks [c] = map Ch c"
| "join_chunks (c # cs) = map Ch c @ Hy # join_chunks cs"

definition class_atoms :: "string \<Rightarrow> atom list" where
  "class_atoms stuff =
     (if CHR ''-'' \<notin> set stuff then map Ch stuff
      else join_chunks (merge_chunks (fix_last
             (split_chunks (case stuff of c # _ \<Rightarrow> if c = CHR ''!'' then 2 else 1 | [] \<Rightarrow> 1)
                [] stuff))))"

definition class_piece :: "string \<Rightarrow> piece" where
  "class_piece stuff =
     (let atoms = class_atoms stuff in
      if atoms = [] then Never
      else if atoms = [Ch (CHR ''!'')] then AnyChar
      else if hd atoms = Ch (CHR ''!'') then CharSet True (tl atoms)
      else CharSet False atoms)"

lemma find_close_length: "find_close s = Some (a, b) \<Longrightarrow> length b < length s"
  by (induction s arbitrary: a b) (auto split: if_splits option.splits)

lemma class_span_length: "class_span s = Some (a, b) \<Longrightarrow> length b \<le> length s"
  by (auto simp: class_span_def Let_def split: list.splits if_splits option.splits
      dest!: find_close_length)

text \<open>The main loop of \<^verbatim>\<open>translate\<close>; \<open>res\<close> is the list built so far.\<close>

function translate_loop :: "piece list \<Rightarrow> string \<Rightarrow> piece list" where
  "translate_loop res [] = res"
| "translate_loop res (c # cs) =
     (if c = CHR ''*'' then
        (if res = [] \<or> last res \<noteq> STAR then translate_loop (res @ [STAR]) cs
         else translate_loop res cs)
      else if c = CHR ''?'' then translate_loop (res @ [AnyChar]) cs
      else if c = CHR ''['' then
        (case class_span cs of
           None \<Rightarrow> translate_loop (res @ [Lit c]) cs
         | Some (stuff, after) \<Rightarrow> translate_loop (res @ [class_piece stuff]) after)
      else translate_loop (res @ [Lit c]) cs)"
  by pat_completeness auto
termination
  by (relation "measure (\<lambda>(res, p). length p)") (auto dest: class_span_length)

text \<open>
  The second part of \<^verbatim>\<open>translate\<close> turns the pieces into the regular expression. The
  pieces before the first star are matched one after the other. A star followed by
  pieces and a further star becomes the atomic group \<^verbatim>\<open>(?>.*?fixed)\<close>; the last star
  becomes \<^verbatim>\<open>.*\<close>, followed by the pieces after it.
\<close>

datatype regex_part =
    Fixed "piece list"       \<comment> \<open>pieces matched one after the other\<close>
  | AtomicLazy "piece list"  \<comment> \<open>\<^verbatim>\<open>(?>.*?fixed)\<close>\<close>
  | DotStar                  \<comment> \<open>\<^verbatim>\<open>.*\<close>\<close>

function stars :: "piece list \<Rightarrow> regex_part list" where
  "stars [] = []"
| "stars (p # rest) =
     (if rest = [] then [DotStar]
      else (let fixed = takeWhile (\<lambda>q. q \<noteq> STAR) rest;
                more = dropWhile (\<lambda>q. q \<noteq> STAR) rest
            in if more = [] then [DotStar, Fixed fixed]
               else AtomicLazy fixed # stars more))"
  by pat_completeness auto
termination
  by (relation "measure length") (auto simp: length_dropWhile_le less_Suc_eq_le)

definition deal_with_stars :: "piece list \<Rightarrow> regex_part list" where
  "deal_with_stars inp =
     Fixed (takeWhile (\<lambda>q. q \<noteq> STAR) inp) # stars (dropWhile (\<lambda>q. q \<noteq> STAR) inp)"

definition translate :: "string \<Rightarrow> regex_part list" where
  "translate pat = deal_with_stars (translate_loop [] pat)"

text \<open>The characters of a bracket expression, as the regular-expression parser reads
  its atoms: an atom followed by a range hyphen and a further atom is a range, any
  other atom stands for itself.\<close>

fun atom_char :: "atom \<Rightarrow> char" where
  "atom_char (Ch c) = c"
| "atom_char Hy = CHR ''-''"

fun in_set :: "atom list \<Rightarrow> char \<Rightarrow> bool" where
  "in_set [] x = False"
| "in_set (a # Hy # b # rest) x =
     (((of_char (atom_char a) :: nat) \<le> of_char x \<and> (of_char x :: nat) \<le> of_char (atom_char b))
      \<or> in_set rest x)"
| "in_set (a # rest) x = (atom_char a = x \<or> in_set rest x)"

fun piece_match :: "piece \<Rightarrow> char \<Rightarrow> bool" where
  "piece_match STAR x = False"
| "piece_match AnyChar x = True"
| "piece_match Never x = False"
| "piece_match (CharSet neg atoms) x = (neg \<noteq> in_set atoms x)"
| "piece_match (Lit c) x = (c = x)"

text \<open>
  Matching the expression \<^verbatim>\<open>(?s:...)\Z\<close> from the start of the name, as
  \<^verbatim>\<open>re.match\<close> does. \<open>match_fixed\<close> matches pieces one after the other and gives what
  is left of the name. \<open>first_match\<close> is the atomic group: it skips as few characters as
  it can before the pieces match, and the match never comes back to try another place.
  \<^verbatim>\<open>.*\<close> may stop anywhere, and \<^verbatim>\<open>\Z\<close> needs the end of the name.
\<close>

fun match_fixed :: "piece list \<Rightarrow> string \<Rightarrow> string option" where
  "match_fixed [] s = Some s"
| "match_fixed (p # ps) [] = None"
| "match_fixed (p # ps) (x # xs) = (if piece_match p x then match_fixed ps xs else None)"

fun first_match :: "piece list \<Rightarrow> string \<Rightarrow> string option" where
  "first_match ps [] = match_fixed ps []"
| "first_match ps (x # xs) =
     (case match_fixed ps (x # xs) of
        Some r \<Rightarrow> Some r
      | None \<Rightarrow> first_match ps xs)"

fun match_parts :: "regex_part list \<Rightarrow> string \<Rightarrow> bool" where
  "match_parts [] s = (s = [])"
| "match_parts (Fixed ps # rest) s =
     (case match_fixed ps s of None \<Rightarrow> False | Some r \<Rightarrow> match_parts rest r)"
| "match_parts (AtomicLazy ps # rest) s =
     (case first_match ps s of None \<Rightarrow> False | Some r \<Rightarrow> match_parts rest r)"
| "match_parts (DotStar # rest) [] = match_parts rest []"
| "match_parts (DotStar # rest) (x # xs) =
     (match_parts rest (x # xs) \<or> match_parts (DotStar # rest) xs)"

definition fnmatch :: "string \<Rightarrow> string \<Rightarrow> bool" where
  "fnmatch name pat = match_parts (translate pat) name"

text \<open>The language of the pieces read without atomic groups: a \<^verbatim>\<open>STAR\<close> stands for
  \<^verbatim>\<open>.*\<close>, every other piece for one character. It is the language that the expression
  matches (lemma \<open>fnmatch_re\<close> below).\<close>

fun re_match :: "piece list \<Rightarrow> string \<Rightarrow> bool" where
  "re_match [] s = (s = [])"
| "re_match (STAR # ps) [] = re_match ps []"
| "re_match (STAR # ps) (x # xs) = (re_match ps (x # xs) \<or> re_match (STAR # ps) xs)"
| "re_match (p # ps) [] = False"
| "re_match (p # ps) (x # xs) = (piece_match p x \<and> re_match ps xs)"

section \<open>Exceptions and results\<close>

text \<open>
  An exception is a value. \<open>KeyError\<close> and \<open>RuntimeError\<close> are the two that the
  modelled code raises itself; \<open>OtherError\<close> is any other instance of \<^verbatim>\<open>Exception\<close>
  that a collaborator (a handler, an adapter, the file system) raises, carried with its
  text. These are the exceptions that the \<^verbatim>\<open>except Exception\<close> clauses of the source
  catch. A call returns \<open>Inl e\<close> when it raises \<open>e\<close> and \<open>Inr v\<close> when it returns \<open>v\<close>.
\<close>

datatype exn = KeyError string | RuntimeError string | OtherError string

type_synonym 'a result = "exn + 'a"

text \<open>\<^verbatim>\<open>str(exc)\<close>: a \<^verbatim>\<open>KeyError\<close> prints its key quoted.\<close>

fun str_exn :: "exn \<Rightarrow> string" where
  "str_exn (KeyError k) = [CHR 0x27] @ k @ [CHR 0x27]"
| "str_exn (RuntimeError m) = m"
| "str_exn (OtherError m) = m"

text \<open>A \<^verbatim>\<open>for\<close> loop whose body may raise: the first exception ends the loop and is
  the loop's result.\<close>

fun for_each :: "('a \<Rightarrow> 's \<Rightarrow> unit result \<times> 's) \<Rightarrow> 'a list \<Rightarrow> 's \<Rightarrow> unit result \<times> 's" where
  "for_each body [] s = (Inr (), s)"
| "for_each body (x # xs) s =
     (case body x s of
        (Inl e, s') \<Rightarrow> (Inl e, s')
      | (Inr _, s') \<Rightarrow> for_each body xs s')"

section \<open>Topic bus (ellis/pubsub.py)\<close>

record 'd event =
  topic :: string
  exchange :: string
  data :: 'd
  timestamp :: real

text \<open>A handler is a callable on an event. It acts on the world outside the bus, of
  type \<open>'w\<close>, and returns or raises.\<close>

type_synonym ('d, 'w) handler = "'d event \<Rightarrow> 'w \<Rightarrow> unit result \<times> 'w"

record ('d, 'w) subscription =
  sub_id :: string
  pattern :: string
  handler :: "('d, 'w) handler"

definition matches :: "('d, 'w) subscription \<Rightarrow> string \<Rightarrow> bool" where
  "matches s tp = fnmatch tp (pattern s)"

record ('d, 'w) event_bus =
  subs :: "('d, 'w) subscription list"
  async :: bool
  queue :: "(('d, 'w) subscription \<times> 'd event) list"

text \<open>The line that \<^verbatim>\<open>_invoke\<close> writes with \<^verbatim>\<open>log.error\<close>: the topic, the first eight
  characters of the subscription id, and the traceback, which the text of the exception
  stands for.\<close>

datatype bus_log = HandlerError string string string

text \<open>What a call on the bus leaves behind: the world the handlers act on, the log, and
  the handler invocations made, each with the id of its subscription and its event.\<close>

record ('d, 'w) effects =
  world :: 'w
  logged :: "bus_log list"
  calls :: "(string \<times> 'd event) list"

text \<open>\<^verbatim>\<open>subscribe\<close>; \<open>uid\<close> is the value of \<^verbatim>\<open>str(uuid4())\<close>.\<close>

definition subscribe ::
  "('d, 'w) event_bus \<Rightarrow> string \<Rightarrow> string \<Rightarrow> ('d, 'w) handler
     \<Rightarrow> ('d, 'w) subscription \<times> ('d, 'w) event_bus" where
  "subscribe b uid pat h =
     (let sub = \<lparr>sub_id = uid, pattern = pat, handler = h\<rparr>
      in (sub, b\<lparr>subs := subs b @ [sub]\<rparr>))"

definition unsubscribe :: "('d, 'w) event_bus \<Rightarrow> ('d, 'w) subscription \<Rightarrow> ('d, 'w) event_bus" where
  "unsubscribe b sub = b\<lparr>subs := filter (\<lambda>s. sub_id s \<noteq> sub_id sub) (subs b)\<rparr>"

text \<open>\<^verbatim>\<open>_invoke\<close>: the handler runs inside \<^verbatim>\<open>try\<close>; an exception is logged and the
  call returns.\<close>

definition invoke ::
  "('d, 'w) subscription \<Rightarrow> 'd event \<Rightarrow> ('d, 'w) effects \<Rightarrow> unit result \<times> ('d, 'w) effects" where
  "invoke sub ev st =
     (let st1 = st\<lparr>calls := calls st @ [(sub_id sub, ev)]\<rparr> in
      case handler sub ev (world st1) of
        (Inr _, w) \<Rightarrow> (Inr (), st1\<lparr>world := w\<rparr>)
      | (Inl e, w) \<Rightarrow>
          (Inr (), st1\<lparr>world := w,
                        logged := logged st1 @ [HandlerError (topic ev) (take 8 (sub_id sub)) (str_exn e)]\<rparr>))"

text \<open>\<^verbatim>\<open>publish\<close>; \<open>now\<close> is the value of \<^verbatim>\<open>time.time()\<close> that stamps the event. The
  subscription list is read once, before any handler runs.\<close>

definition publish ::
  "('d, 'w) event_bus \<Rightarrow> real \<Rightarrow> string \<Rightarrow> string \<Rightarrow> 'd \<Rightarrow> ('d, 'w) effects
     \<Rightarrow> unit result \<times> ('d, 'w) event_bus \<times> ('d, 'w) effects" where
  "publish b now tp ex d st =
     (let ev = \<lparr>topic = tp, exchange = ex, data = d, timestamp = now\<rparr>;
          matched = filter (\<lambda>s. matches s tp) (subs b)
      in if async b then
           (Inr (), b\<lparr>queue := queue b @ map (\<lambda>sub. (sub, ev)) matched\<rparr>, st)
         else
           (case for_each (\<lambda>sub. invoke sub ev) matched st of
              (r, st') \<Rightarrow> (r, b, st')))"

text \<open>One turn of \<^verbatim>\<open>_delivery_loop\<close>: the oldest queued pair is taken and invoked; on an
  empty queue the turn does nothing. \<open>deliver n\<close> is \<open>n\<close> turns of the worker.\<close>

definition delivery_step ::
  "('d, 'w) event_bus \<Rightarrow> ('d, 'w) effects \<Rightarrow> ('d, 'w) event_bus \<times> ('d, 'w) effects" where
  "delivery_step b st =
     (case queue b of
        [] \<Rightarrow> (b, st)
      | (sub, ev) # q \<Rightarrow> (b\<lparr>queue := q\<rparr>, snd (invoke sub ev st)))"

fun deliver ::
  "nat \<Rightarrow> ('d, 'w) event_bus \<Rightarrow> ('d, 'w) effects \<Rightarrow> ('d, 'w) event_bus \<times> ('d, 'w) effects" where
  "deliver 0 b st = (b, st)"
| "deliver (Suc n) b st = (case delivery_step b st of (b', st') \<Rightarrow> deliver n b' st')"

subsection \<open>Running deliveries in turn\<close>

text \<open>
  Handlers change the world they act on, so what a handler does depends on the handlers
  that ran before it. \<open>run_pairs\<close> runs the handlers of a list of (subscription, event)
  pairs one after the other and collects what each of them did; \<open>error_lines\<close> are the
  log lines for those that raised; \<open>after_run\<close> is the state of the effects once every
  pair of the list has been invoked.
\<close>

fun run_pairs ::
  "(('d, 'w) subscription \<times> 'd event) list \<Rightarrow> 'w \<Rightarrow> unit result list \<times> 'w" where
  "run_pairs [] w = ([], w)"
| "run_pairs ((s, ev) # ps) w =
     (case handler s ev w of
        (r, w') \<Rightarrow> (case run_pairs ps w' of (rs, w'') \<Rightarrow> (r # rs, w'')))"

fun error_lines ::
  "(('d, 'w) subscription \<times> 'd event) list \<Rightarrow> unit result list \<Rightarrow> bus_log list" where
  "error_lines ((s, ev) # ps) (Inl e # rs) =
     HandlerError (topic ev) (take 8 (sub_id s)) (str_exn e) # error_lines ps rs"
| "error_lines ((s, ev) # ps) (Inr u # rs) = error_lines ps rs"
| "error_lines ps rs = []"

definition call_of :: "('d, 'w) subscription \<times> 'd event \<Rightarrow> string \<times> 'd event" where
  "call_of p = (sub_id (fst p), snd p)"

definition after_run ::
  "(('d, 'w) subscription \<times> 'd event) list \<Rightarrow> ('d, 'w) effects \<Rightarrow> ('d, 'w) effects" where
  "after_run ps st =
     st\<lparr>world := snd (run_pairs ps (world st)),
        logged := logged st @ error_lines ps (fst (run_pairs ps (world st))),
        calls := calls st @ map call_of ps\<rparr>"


text \<open>A sample bus: its first handler raises, the others count their invocations.\<close>

definition failing_handler :: "(unit, nat) handler" where
  "failing_handler ev w = (Inl (OtherError ''boom''), w)"

definition counting_handler :: "(unit, nat) handler" where
  "counting_handler ev w = (Inr (), Suc w)"

definition sample_bus :: "(unit, nat) event_bus" where
  "sample_bus =
     \<lparr>subs = [\<lparr>sub_id = ''0a1b2c3d-0001'', pattern = ''odds.*'', handler = failing_handler\<rparr>,
              \<lparr>sub_id = ''0a1b2c3d-0002'', pattern = ''feed.*'', handler = counting_handler\<rparr>,
              \<lparr>sub_id = ''0a1b2c3d-0003'', pattern = ''odds.alpha'', handler = counting_handler\<rparr>],
      async = False, queue = []\<rparr>"

definition sample_effects :: "(unit, nat) effects" where
  "sample_effects = \<lparr>world = 0, logged = [], calls = []\<rparr>"


section \<open>Auth manager (ellis/auth.py)\<close>

datatype auth_status = PENDING | SUCCESS | FAILED | EXPIRED

record auth_result =
  ar_exchange :: string
  status :: auth_status
  authenticated_at :: "real option"
  error :: "string option"

definition ok :: "auth_result \<Rightarrow> bool" where
  "ok r = (status r = SUCCESS)"

text \<open>The manager. Its two dictionaries are lists of (name, value) pairs in insertion
  order; a client is an opaque value of type \<open>'c\<close>.\<close>

record 'c auth_manager =
  clients :: "(string \<times> 'c) list"
  token_ttl :: real
  max_workers :: int
  results :: "(string \<times> auth_result) list"

text \<open>What the adapters do when the manager calls them: the outcome of a client's
  \<^verbatim>\<open>authenticate()\<close>, and the value of \<^verbatim>\<open>time.time()\<close> read after it has returned.\<close>

record 'c adapters =
  authenticate :: "'c \<Rightarrow> bool result"
  auth_returned_at :: "'c \<Rightarrow> real"

definition new_auth_manager :: "(string \<times> 'c) list \<Rightarrow> real \<Rightarrow> int \<Rightarrow> 'c auth_manager" where
  "new_auth_manager cl ttl mw =
     \<lparr>clients = cl, token_ttl = ttl, max_workers = mw,
      results = map (\<lambda>(name, c). (name, \<lparr>ar_exchange = name, status = PENDING,
                                         authenticated_at = None, error = None\<rparr>)) cl\<rparr>"

text \<open>\<^verbatim>\<open>_is_expired\<close>; \<open>now\<close> is the value of \<^verbatim>\<open>time.time()\<close>. A public method of the
  manager reads the clock once.\<close>

definition is_expired :: "real \<Rightarrow> 'c auth_manager \<Rightarrow> auth_result \<Rightarrow> bool" where
  "is_expired now m r =
     (case authenticated_at r of
        None \<Rightarrow> False
      | Some t \<Rightarrow> now - t \<ge> token_ttl m)"

text \<open>\<^verbatim>\<open>_needs_auth\<close>; \<^verbatim>\<open>self._results[name]\<close> raises \<^verbatim>\<open>KeyError\<close> on a missing name.\<close>

definition needs_auth :: "real \<Rightarrow> 'c auth_manager \<Rightarrow> string \<Rightarrow> bool result" where
  "needs_auth now m name =
     (case map_of (results m) name of
        None \<Rightarrow> Inl (KeyError name)
      | Some r \<Rightarrow>
          if status r = PENDING then Inr True
          else if status r = FAILED \<or> status r = EXPIRED then Inr True
          else if status r = SUCCESS \<and> is_expired now m r then Inr True
          else Inr False)"

text \<open>The last line of \<^verbatim>\<open>traceback.format_exception_only\<close>.\<close>

fun format_exception_only :: "exn \<Rightarrow> string" where
  "format_exception_only (KeyError k) = ''KeyError: '' @ str_exn (KeyError k)"
| "format_exception_only (RuntimeError msg) = ''RuntimeError: '' @ msg"
| "format_exception_only (OtherError msg) = msg"

text \<open>\<^verbatim>\<open>_auth_one\<close>\<close>

definition auth_one :: "'c adapters \<Rightarrow> string \<Rightarrow> 'c \<Rightarrow> auth_result" where
  "auth_one env name client =
     (case authenticate env client of
        Inr okv \<Rightarrow>
          if okv then \<lparr>ar_exchange = name, status = SUCCESS,
                       authenticated_at = Some (auth_returned_at env client), error = None\<rparr>
          else \<lparr>ar_exchange = name, status = FAILED, authenticated_at = None,
                 error = Some ''authenticate() returned False''\<rparr>
      | Inl e \<Rightarrow> \<lparr>ar_exchange = name, status = FAILED, authenticated_at = None,
                   error = Some (format_exception_only e)\<rparr>)"

text \<open>The dictionary comprehension that selects the targets of \<^verbatim>\<open>authenticate_all\<close>:
  \<^verbatim>\<open>force or self._needs_auth(name)\<close> for every client, in order.\<close>

fun select_targets ::
  "real \<Rightarrow> bool \<Rightarrow> 'c auth_manager \<Rightarrow> (string \<times> 'c) list \<Rightarrow> (string \<times> 'c) list result" where
  "select_targets now force m [] = Inr []"
| "select_targets now force m ((name, c) # cs) =
     (case (if force then Inr True else needs_auth now m name) of
        Inl e \<Rightarrow> Inl e
      | Inr need \<Rightarrow>
          (case select_targets now force m cs of
             Inl e \<Rightarrow> Inl e
           | Inr ts \<Rightarrow> Inr (if need then (name, c) # ts else ts)))"

text \<open>
  \<^verbatim>\<open>authenticate_all\<close>. The targets are authenticated by a pool of threads and each
  result is stored under its name as it completes. The names are distinct, so the
  dictionary that results does not depend on the order of completion; the model stores
  them in the order of the targets. The value returned is the list of the names whose
  \<^verbatim>\<open>authenticate()\<close> was called, with the manager, whose \<open>results\<close> is the dictionary
  that the method returns. \<^verbatim>\<open>ThreadPoolExecutor\<close> raises \<^verbatim>\<open>ValueError\<close> on a pool size
  that is not positive.
\<close>

definition authenticate_all ::
  "'c adapters \<Rightarrow> real \<Rightarrow> bool \<Rightarrow> 'c auth_manager \<Rightarrow> (string list \<times> 'c auth_manager) result" where
  "authenticate_all env now force m =
     (case select_targets now force m (clients m) of
        Inl e \<Rightarrow> Inl e
      | Inr targets \<Rightarrow>
          if targets = [] then Inr ([], m)
          else if min (max_workers m) (int (length targets)) \<le> 0
          then Inl (OtherError ''max_workers must be greater than 0'')
          else Inr (map fst targets,
                    m\<lparr>results := foldl (\<lambda>rs (name, c). AList.update name (auth_one env name c) rs)
                                       (results m) targets\<rparr>))"

text \<open>\<^verbatim>\<open>refresh_expired\<close>\<close>

definition refresh_expired ::
  "'c adapters \<Rightarrow> real \<Rightarrow> 'c auth_manager \<Rightarrow> (string list \<times> 'c auth_manager) result" where
  "refresh_expired env now m =
     (let stale = map fst (filter (\<lambda>(name, r).
                     (status r = EXPIRED \<or> status r = FAILED \<or> status r = PENDING)
                     \<or> is_expired now m r) (results m))
      in if stale = [] then Inr ([], m)
         else authenticate_all env now False m)"

text \<open>\<^verbatim>\<open>_mark_expired\<close>: every entry is visited once and an expired success is replaced
  under its own key.\<close>

definition mark_expired :: "real \<Rightarrow> 'c auth_manager \<Rightarrow> 'c auth_manager" where
  "mark_expired now m =
     m\<lparr>results := map (\<lambda>(name, r).
          if status r = SUCCESS \<and> is_expired now m r
          then (name, \<lparr>ar_exchange = name, status = EXPIRED,
                       authenticated_at = authenticated_at r, error = None\<rparr>)
          else (name, r)) (results m)\<rparr>"

text \<open>The dictionary comprehension of \<^verbatim>\<open>authenticated_clients\<close>;
  \<^verbatim>\<open>self._clients[name]\<close> raises \<^verbatim>\<open>KeyError\<close> on a missing name.\<close>

fun collect_clients ::
  "(string \<times> 'c) list \<Rightarrow> (string \<times> auth_result) list \<Rightarrow> (string \<times> 'c) list result" where
  "collect_clients cl [] = Inr []"
| "collect_clients cl ((name, r) # rs) =
     (if status r = SUCCESS then
        (case map_of cl name of
           None \<Rightarrow> Inl (KeyError name)
         | Some c \<Rightarrow>
             (case collect_clients cl rs of
                Inl e \<Rightarrow> Inl e
              | Inr acc \<Rightarrow> Inr ((name, c) # acc)))
      else collect_clients cl rs)"

text \<open>\<^verbatim>\<open>authenticated_clients\<close>: the dictionary returned, or the exception, and the manager
  after the sweep.\<close>

definition authenticated_clients ::
  "real \<Rightarrow> 'c auth_manager \<Rightarrow> (string \<times> 'c) list result \<times> 'c auth_manager" where
  "authenticated_clients now m =
     (let m' = mark_expired now m
      in (collect_clients (clients m') (results m'), m'))"

text \<open>
  What holds of every manager that the constructor builds and its methods change: the
  two dictionaries have the same keys in the same order, no key occurs twice, and a
  result in \<open>SUCCESS\<close> carries the time of its authentication.
\<close>

definition manager_inv :: "'c auth_manager \<Rightarrow> bool" where
  "manager_inv m \<longleftrightarrow>
     map fst (results m) = map fst (clients m)
     \<and> distinct (map fst (clients m))
     \<and> list_all (\<lambda>(name, r). status r = SUCCESS \<longrightarrow> authenticated_at r \<noteq> None) (results m)"

text \<open>The test by which \<^verbatim>\<open>refresh_expired\<close> finds a result stale.\<close>

definition is_stale :: "real \<Rightarrow> 'c auth_manager \<Rightarrow> auth_result \<Rightarrow> bool" where
  "is_stale now m r \<longleftrightarrow>
     (status r = EXPIRED \<or> status r = FAILED \<or> status r = PENDING) \<or> is_expired now m r"


text \<open>A sample manager with three clients, and what their adapters answer.\<close>

definition sample_manager :: "nat auth_manager" where
  "sample_manager =
     \<lparr>clients = [(''alpha'', 1), (''beta'', 2), (''gamma'', 3)],
      token_ttl = 3600, max_workers = 8,
      results =
        [(''alpha'', \<lparr>ar_exchange = ''alpha'', status = SUCCESS,
                      authenticated_at = Some 100, error = None\<rparr>),
         (''beta'', \<lparr>ar_exchange = ''beta'', status = SUCCESS,
                     authenticated_at = Some 1000, error = None\<rparr>),
         (''gamma'', \<lparr>ar_exchange = ''gamma'', status = FAILED,
                      authenticated_at = None, error = Some ''authenticate() returned False''\<rparr>)]\<rparr>"

definition sample_adapters :: "nat adapters" where
  "sample_adapters =
     \<lparr>authenticate = (\<lambda>c. if c = 1 then Inr True else if c = 2 then Inr False
                           else Inl (OtherError ''ConnectionError: refused'')),
      auth_returned_at = (\<lambda>c. 4001)\<rparr>"


section \<open>Poll feed (ellis/feed.py, ellis/models.py)\<close>

record outcome =
  o_name :: string
  odds :: real
  o_exchange :: string
  o_currency :: string

record market =
  market_id :: string
  market_name :: string
  event_name :: string
  m_exchange :: string
  m_currency :: string
  outcomes :: "outcome list"

text \<open>The \<^verbatim>\<open>data\<close> of the events that a feed publishes: nothing, the markets of a
  poll, or the dictionary \<^verbatim>\<open>{"error": str(exc)}\<close>.\<close>

datatype payload = NoData | MarketList "market list" | ErrorInfo string

text \<open>What a feed does to the world outside it, in order: a call of
  \<^verbatim>\<open>bus.publish(topic, exchange, data)\<close>, a line of the log, the start of the worker
  thread, and the join of the worker with its timeout.\<close>

datatype feed_effect =
    Publish string string payload
  | LogError string
  | LogInfo string
  | LogWarning string
  | StartThread
  | Join real

record 'c odds_feed =
  feed_name :: string
  client :: 'c
  event_type_ids :: "string list"
  currency :: string
  poll_interval :: real
  stop_event :: bool
  has_thread :: bool  \<comment> \<open>\<^verbatim>\<open>self._thread is not None\<close>\<close>
  poll_count :: nat
  last_poll :: "real option"

definition new_odds_feed :: "string \<Rightarrow> 'c \<Rightarrow> string list \<Rightarrow> string \<Rightarrow> real \<Rightarrow> 'c odds_feed" where
  "new_odds_feed n c ids cur interval =
     \<lparr>feed_name = n, client = c, event_type_ids = ids, currency = cur,
      poll_interval = interval, stop_event = False, has_thread = False,
      poll_count = 0, last_poll = None\<rparr>"

text \<open>
  What one turn of the worker's loop finds outside the feed: whether the stop event is
  set when the loop tests it, what \<^verbatim>\<open>client.is_authenticated\<close> says, the auth manager
  (shared with the other feeds) and what the adapters answer it, the clock, and what
  \<^verbatim>\<open>client.get_markets\<close> does.
\<close>

record 'c cycle =
  stop_is_set :: bool
  is_authenticated :: bool
  manager :: "'c auth_manager"
  adapters_env :: "'c adapters"
  clock :: real
  get_markets :: "string list \<Rightarrow> market list result"

text \<open>\<^verbatim>\<open>start\<close>; \<open>alive\<close> is \<^verbatim>\<open>self._thread.is_alive()\<close>.\<close>

definition start :: "'c odds_feed \<Rightarrow> bool \<Rightarrow> 'c odds_feed \<times> feed_effect list" where
  "start f alive =
     (if has_thread f \<and> alive then (f, [LogWarning ''already running''])
      else (f\<lparr>stop_event := False, has_thread := True\<rparr>, [StartThread, LogInfo ''started'']))"

text \<open>\<^verbatim>\<open>stop\<close>\<close>

definition stop :: "'c odds_feed \<Rightarrow> 'c odds_feed \<times> feed_effect list" where
  "stop f =
     (f\<lparr>stop_event := True\<rparr>,
      (if has_thread f then [Join (poll_interval f + 5)] else [])
      @ [Publish (''feed.stopped.'' @ feed_name f) (feed_name f) NoData, LogInfo ''stopped''])"

text \<open>The currency stamp of \<^verbatim>\<open>_poll\<close> on a market and its outcomes.\<close>

definition stamp :: "string \<Rightarrow> market \<Rightarrow> market" where
  "stamp cur mk = mk\<lparr>m_currency := cur, outcomes := map (\<lambda>oc. oc\<lparr>o_currency := cur\<rparr>) (outcomes mk)\<rparr>"

text \<open>The check of the session at the head of \<^verbatim>\<open>_poll\<close>.\<close>

definition ensure_session :: "'c odds_feed \<Rightarrow> 'c cycle \<Rightarrow> unit result \<times> feed_effect list" where
  "ensure_session f c =
     (if \<not> is_authenticated c then
        (case refresh_expired (adapters_env c) (clock c) (manager c) of
           Inl e \<Rightarrow> (Inl e, [LogInfo ''session invalid, re-authenticating...''])
         | Inr (names, m') \<Rightarrow>
             (case map_of (results m') (feed_name f) of
                None \<Rightarrow> (Inl (KeyError (feed_name f)), [LogInfo ''session invalid, re-authenticating...''])
              | Some r \<Rightarrow>
                  if \<not> ok r
                  then (Inl (RuntimeError (''re-auth failed: ''
                               @ (case error r of None \<Rightarrow> ''None'' | Some msg \<Rightarrow> msg))),
                        [LogInfo ''session invalid, re-authenticating...''])
                  else (Inr (), [LogInfo ''session invalid, re-authenticating...''])))
      else (Inr (), []))"

text \<open>\<^verbatim>\<open>_poll\<close>: the exception raised or the normal return, the feed, and the effects.
  The call of \<^verbatim>\<open>publish\<close> is the last statement and returns normally.\<close>

definition poll :: "'c odds_feed \<Rightarrow> 'c cycle \<Rightarrow> unit result \<times> 'c odds_feed \<times> feed_effect list" where
  "poll f c =
     (case ensure_session f c of
        (Inl e, effs) \<Rightarrow> (Inl e, f, effs)
      | (Inr _, effs) \<Rightarrow>
          (case get_markets c (event_type_ids f) of
             Inl e \<Rightarrow> (Inl e, f, effs)
           | Inr markets \<Rightarrow>
               (Inr (),
                f\<lparr>poll_count := poll_count f + 1, last_poll := Some (clock c)\<rparr>,
                effs @ [Publish (''odds.'' @ feed_name f) (feed_name f)
                          (MarketList (map (stamp (currency f)) markets))])))"

text \<open>The body of the loop of \<^verbatim>\<open>_loop\<close>, the \<^verbatim>\<open>try\<close> statement: the feed, the flag
  \<^verbatim>\<open>first_run\<close> and the effects.\<close>

definition cycle_body ::
  "'c odds_feed \<Rightarrow> bool \<Rightarrow> 'c cycle \<Rightarrow> 'c odds_feed \<times> bool \<times> feed_effect list" where
  "cycle_body f first_run c =
     (case poll f c of
        (Inr _, f', effs) \<Rightarrow>
          if first_run
          then (f', False, effs @ [Publish (''feed.started.'' @ feed_name f') (feed_name f') NoData])
          else (f', first_run, effs)
      | (Inl e, f', effs) \<Rightarrow>
          (f', first_run,
           effs @ [LogError (''poll error: '' @ str_exn e),
                   Publish (''feed.error.'' @ feed_name f') (feed_name f') (ErrorInfo (str_exn e))]))"

text \<open>
  The \<^verbatim>\<open>while\<close> loop of \<^verbatim>\<open>_loop\<close>, run over the turns that are observed: the loop
  ends when it finds the stop event set; after a turn it waits and tests again.
\<close>

fun loop :: "'c odds_feed \<Rightarrow> bool \<Rightarrow> 'c cycle list \<Rightarrow> 'c odds_feed \<times> feed_effect list" where
  "loop f first_run [] = (f, [])"
| "loop f first_run (c # cs) =
     (if stop_is_set c then (f, [])
      else (case cycle_body f first_run c of
              (f', first_run', effs) \<Rightarrow>
                (case loop f' first_run' cs of
                   (f'', rest) \<Rightarrow> (f'', effs @ rest))))"

text \<open>\<^verbatim>\<open>_loop\<close> starts with \<^verbatim>\<open>first_run = True\<close>.\<close>

definition run_loop :: "'c odds_feed \<Rightarrow> 'c cycle list \<Rightarrow> 'c odds_feed \<times> feed_effect list" where
  "run_loop f cs = loop f True cs"

text \<open>An episode: \<^verbatim>\<open>start()\<close> on a feed whose worker is not running, the turns of the
  worker, and \<^verbatim>\<open>stop()\<close>.\<close>

definition episode :: "'c odds_feed \<Rightarrow> 'c cycle list \<Rightarrow> 'c odds_feed \<times> feed_effect list" where
  "episode f cs =
     (case start f False of
        (f1, e1) \<Rightarrow>
          (case run_loop f1 cs of
             (f2, e2) \<Rightarrow>
               (case stop f2 of
                  (f3, e3) \<Rightarrow> (f3, e1 @ e2 @ e3))))"

text \<open>The topics of the publications among some effects, in order.\<close>

fun topics :: "feed_effect list \<Rightarrow> string list" where
  "topics [] = []"
| "topics (Publish tp ex d # es) = tp # topics es"
| "topics (e # es) = topics es"

fun publications :: "feed_effect list \<Rightarrow> (string \<times> string \<times> payload) list" where
  "publications [] = []"
| "publications (Publish tp ex d # es) = (tp, ex, d) # publications es"
| "publications (e # es) = publications es"

text \<open>A topic \<open>s\<close> occurs at most once in a list of topics, and where it occurs the
  topic \<open>od\<close> occurs before it.\<close>

definition once_after :: "string \<Rightarrow> string \<Rightarrow> string list \<Rightarrow> bool" where
  "once_after s od xs \<longleftrightarrow>
     count_list xs s \<le> 1 \<and> (\<forall>i < length xs. xs ! i = s \<longrightarrow> (\<exists>j < i. xs ! j = od))"


text \<open>A sample feed on the source \<^verbatim>\<open>alpha\<close>, a turn in which the poll succeeds, and a
  turn in which the session is refreshed and \<^verbatim>\<open>get_markets\<close> then raises.\<close>

definition sample_market :: market where
  "sample_market =
     \<lparr>market_id = ''1.101'', market_name = ''Match Odds'', event_name = ''A vs B'',
      m_exchange = ''alpha'', m_currency = ''USD'',
      outcomes = [\<lparr>o_name = ''A'', odds = 2, o_exchange = ''alpha'', o_currency = ''USD''\<rparr>]\<rparr>"

definition sample_feed :: "nat odds_feed" where
  "sample_feed = new_odds_feed ''alpha'' 1 [''1''] ''GBP'' 30"

definition good_cycle :: "nat cycle" where
  "good_cycle =
     \<lparr>stop_is_set = False, is_authenticated = True, manager = sample_manager,
      adapters_env = sample_adapters, clock = 4000,
      get_markets = (\<lambda>ids. Inr [sample_market])\<rparr>"

definition bad_cycle :: "nat cycle" where
  "bad_cycle =
     \<lparr>stop_is_set = False, is_authenticated = False, manager = sample_manager,
      adapters_env = sample_adapters, clock = 4000,
      get_markets = (\<lambda>ids. Inl (OtherError ''timed out''))\<rparr>"


section \<open>Deduplicating file store (alf/src/classifieds/storage.py)\<close>

text \<open>JSON values, as \<^verbatim>\<open>json.load\<close> returns them and \<^verbatim>\<open>json.dump\<close> writes them. An
  object is its list of members in order.\<close>

datatype json =
    JNull
  | JBool bool
  | JNum int
  | JStr string
  | JArr "json list"
  | JObj "(string \<times> json) list"

text \<open>
  A listing. The class \<^verbatim>\<open>ClassifiedListing\<close> is defined in
  \<^verbatim>\<open>src/classifieds/models.py\<close>, which is not among the sources; the store uses its
  attribute \<^verbatim>\<open>id\<close>, its property \<^verbatim>\<open>storage_path_parts\<close> and its method \<^verbatim>\<open>to_dict\<close>.
  The record keeps the first two as they are and the other fields as the members that
  \<^verbatim>\<open>to_dict\<close> gives them.
\<close>

record listing =
  lid :: string
  storage_path_parts :: "string \<times> string \<times> string"
  other_fields :: "(string \<times> json) list"

text \<open>Modelled from the spec: \<^verbatim>\<open>ClassifiedListing.to_dict\<close> (in the missing
  \<^verbatim>\<open>src/classifieds/models.py\<close>). The stored record of a listing carries the listing's
  identity key, a string, under the member \<^verbatim>\<open>id\<close>, the member that the store reads back
  with \<^verbatim>\<open>r.get("id")\<close>; the other members are opaque.\<close>

definition to_dict :: "listing \<Rightarrow> (string \<times> json) list" where
  "to_dict l = (''id'', JStr (lid l)) # filter (\<lambda>(k, v). k \<noteq> ''id'') (other_fields l)"

text \<open>Paths are lists of segments. A file is missing, holds text that is not JSON, or
  holds a JSON value.\<close>

type_synonym path = "string list"

datatype file_state = Missing | Garbage | Json json

text \<open>What the store does to the file system, in order.\<close>

datatype fs_op =
    AcquireLock path
  | ReleaseLock path
  | Mkdir path
  | ReadFile path
  | WriteFile path

record store_world =
  files :: "path \<Rightarrow> file_state"
  ops :: "fs_op list"
  store_log :: "string list"

text \<open>
  What the world outside the store does to its calls: whether the lock of a lock file is
  acquired within the timeout, and which calls on a path fail. Opening a file for
  writing truncates it, so a write that fails after the file was opened leaves text
  that is not JSON.
\<close>

datatype lock_outcome = Acquired | TimedOut | LockFailed string

datatype read_outcome = ReadOk | ReadOSError | ReadOtherError string

datatype write_outcome = Written | OpenFailed string | DumpFailed string

record io_env =
  lock_result :: "path \<Rightarrow> lock_outcome"
  mkdir_error :: "path \<Rightarrow> string option"
  read_result :: "path \<Rightarrow> read_outcome"
  write_result :: "path \<Rightarrow> write_outcome"

text \<open>\<^verbatim>\<open>_resolve_path\<close> and the lock file, \<^verbatim>\<open>path.with_suffix(".lock")\<close>.\<close>

definition resolve_path :: "string \<Rightarrow> listing \<Rightarrow> path" where
  "resolve_path data_dir l =
     (case storage_path_parts l of
        (mfr, mdl, date) \<Rightarrow> [data_dir, ''classifieds'', mfr, mdl, date, ''listings.json''])"

definition lock_path :: "path \<Rightarrow> path" where
  "lock_path p = butlast p @ [''listings.lock'']"

text \<open>\<^verbatim>\<open>for r in existing\<close>: what iterating a JSON value yields, where it can be
  iterated.\<close>

fun iterate :: "json \<Rightarrow> json list result" where
  "iterate (JArr xs) = Inr xs"
| "iterate (JObj kvs) = Inr (map (\<lambda>(k, v). JStr k) kvs)"
| "iterate (JStr s) = Inr (map (\<lambda>c. JStr [c]) s)"
| "iterate v = Inl (OtherError ''TypeError: object is not iterable'')"

text \<open>\<^verbatim>\<open>r.get("id")\<close> as an element of a set: only an object has \<^verbatim>\<open>get\<close>, a member that
  is missing reads as \<^verbatim>\<open>None\<close>, and a list or an object cannot be hashed.\<close>

fun record_id :: "json \<Rightarrow> json result" where
  "record_id (JObj kvs) =
     (case map_of kvs ''id'' of
        None \<Rightarrow> Inr JNull
      | Some (JArr xs) \<Rightarrow> Inl (OtherError ''TypeError: unhashable type'')
      | Some (JObj ms) \<Rightarrow> Inl (OtherError ''TypeError: unhashable type'')
      | Some v \<Rightarrow> Inr v)"
| "record_id v = Inl (OtherError ''AttributeError: object has no attribute get'')"

fun record_ids :: "json list \<Rightarrow> json list result" where
  "record_ids [] = Inr []"
| "record_ids (r # rs) =
     (case record_id r of
        Inl e \<Rightarrow> Inl e
      | Inr i \<Rightarrow> (case record_ids rs of Inl e \<Rightarrow> Inl e | Inr others \<Rightarrow> Inr (i # others)))"

definition existing_ids :: "json \<Rightarrow> json list result" where
  "existing_ids existing =
     (case iterate existing of Inl e \<Rightarrow> Inl e | Inr rs \<Rightarrow> record_ids rs)"

text \<open>The read of the destination file in \<^verbatim>\<open>_merge_and_write\<close>: a file that cannot be
  opened or decoded counts as the empty list; another exception is raised.\<close>

definition load_existing :: "io_env \<Rightarrow> path \<Rightarrow> store_world \<Rightarrow> json result \<times> store_world" where
  "load_existing env p w =
     (case files w p of
        Missing \<Rightarrow> (Inr (JArr []), w)
      | f \<Rightarrow>
          (let w1 = w\<lparr>ops := ops w @ [ReadFile p]\<rparr> in
           case read_result env p of
             ReadOtherError msg \<Rightarrow> (Inl (OtherError msg), w1)
           | ReadOSError \<Rightarrow> (Inr (JArr []), w1\<lparr>store_log := store_log w1 @ [''Could not read - overwriting'']\<rparr>)
           | ReadOk \<Rightarrow>
               (case f of
                  Json v \<Rightarrow> (Inr v, w1)
                | _ \<Rightarrow> (Inr (JArr []), w1\<lparr>store_log := store_log w1 @ [''Could not read - overwriting'']\<rparr>))))"

text \<open>\<^verbatim>\<open>_merge_and_write\<close>: the number of records written, or the exception raised.\<close>

definition merge_and_write ::
  "io_env \<Rightarrow> path \<Rightarrow> listing list \<Rightarrow> store_world \<Rightarrow> nat result \<times> store_world" where
  "merge_and_write env p listings w =
     (let w1 = w\<lparr>ops := ops w @ [Mkdir (butlast p)]\<rparr> in
      case mkdir_error env (butlast p) of
        Some msg \<Rightarrow> (Inl (OtherError msg), w1)
      | None \<Rightarrow>
          (case load_existing env p w1 of
             (Inl e, w2) \<Rightarrow> (Inl e, w2)
           | (Inr existing, w2) \<Rightarrow>
               (case existing_ids existing of
                  Inl e \<Rightarrow> (Inl e, w2)
                | Inr ids \<Rightarrow>
                    (let new_dicts = map to_dict (filter (\<lambda>l. JStr (lid l) \<notin> set ids) listings) in
                     if new_dicts = [] then (Inr 0, w2)
                     else
                       (case existing of
                          JArr old \<Rightarrow>
                            (let w3 = w2\<lparr>ops := ops w2 @ [WriteFile p]\<rparr> in
                             case write_result env p of
                               OpenFailed msg \<Rightarrow> (Inl (OtherError msg), w3)
                             | DumpFailed msg \<Rightarrow>
                                 (Inl (OtherError msg), w3\<lparr>files := (files w3)(p := Garbage)\<rparr>)
                             | Written \<Rightarrow>
                                 (Inr (length new_dicts),
                                  w3\<lparr>files := (files w3)(p := Json (JArr (old @ map JObj new_dicts)))\<rparr>))
                        | _ \<Rightarrow> (Inl (OtherError ''TypeError: unsupported operand type(s) for +''), w2))))))"

text \<open>\<^verbatim>\<open>_write_group\<close>: the merge runs under the lock of the file; a timeout and any
  other exception are logged and count as nothing written.\<close>

definition write_group ::
  "io_env \<Rightarrow> path \<Rightarrow> listing list \<Rightarrow> store_world \<Rightarrow> nat \<times> store_world" where
  "write_group env p listings w =
     (case lock_result env (lock_path p) of
        TimedOut \<Rightarrow> (0, w\<lparr>store_log := store_log w @ [''Lock timeout - skipping listings'']\<rparr>)
      | LockFailed msg \<Rightarrow> (0, w\<lparr>store_log := store_log w @ [''Write error: '' @ msg]\<rparr>)
      | Acquired \<Rightarrow>
          (case merge_and_write env p listings (w\<lparr>ops := ops w @ [AcquireLock (lock_path p)]\<rparr>) of
             (Inr n, w') \<Rightarrow> (n, w'\<lparr>ops := ops w' @ [ReleaseLock (lock_path p)]\<rparr>)
           | (Inl e, w') \<Rightarrow>
               (0, w'\<lparr>ops := ops w' @ [ReleaseLock (lock_path p)],
                       store_log := store_log w' @ [''Write error: '' @ str_exn e]\<rparr>)))"

text \<open>\<^verbatim>\<open>groups.setdefault(path, []).append(listing)\<close>\<close>

definition add_to_group ::
  "(path \<times> listing list) list \<Rightarrow> path \<Rightarrow> listing \<Rightarrow> (path \<times> listing list) list" where
  "add_to_group groups p l =
     (case map_of groups p of
        None \<Rightarrow> groups @ [(p, [l])]
      | Some g \<Rightarrow> AList.update p (g @ [l]) groups)"

definition group_listings :: "string \<Rightarrow> listing list \<Rightarrow> (path \<times> listing list) list" where
  "group_listings data_dir listings =
     foldl (\<lambda>groups l. add_to_group groups (resolve_path data_dir l) l) [] listings"

fun write_groups ::
  "io_env \<Rightarrow> (path \<times> listing list) list \<Rightarrow> nat \<Rightarrow> store_world \<Rightarrow> nat \<times> store_world" where
  "write_groups env [] total_written w = (total_written, w)"
| "write_groups env ((p, g) # gs) total_written w =
     (case write_group env p g w of
        (n, w') \<Rightarrow> write_groups env gs (total_written + n) w')"

text \<open>\<^verbatim>\<open>save\<close>\<close>

definition save :: "io_env \<Rightarrow> string \<Rightarrow> listing list \<Rightarrow> store_world \<Rightarrow> nat \<times> store_world" where
  "save env data_dir listings w =
     (if listings = [] then (0, w)
      else write_groups env (group_listings data_dir listings) 0 w)"

text \<open>The identity keys stored in a file: the values of \<^verbatim>\<open>r.get("id")\<close> over the records
  of the array that the file holds. A file that is missing or holds no array of records
  stores no key.\<close>

definition stored_ids :: "file_state \<Rightarrow> json list" where
  "stored_ids f =
     (case f of
        Json (JArr rs) \<Rightarrow> (case record_ids rs of Inr ids \<Rightarrow> ids | Inl e \<Rightarrow> [])
      | _ \<Rightarrow> [])"

text \<open>A destination file can be merged into when it is missing, is not JSON (it is then
  overwritten), or holds an array of records whose ids can be hashed.\<close>

definition mergeable :: "file_state \<Rightarrow> bool" where
  "mergeable f =
     (case f of
        Missing \<Rightarrow> True
      | Garbage \<Rightarrow> True
      | Json (JArr rs) \<Rightarrow> (case record_ids rs of Inr ids \<Rightarrow> True | Inl e \<Rightarrow> False)
      | Json v \<Rightarrow> False)"

text \<open>The calls on a destination succeed: its lock is acquired and the directory, the
  read and the write raise nothing.\<close>

definition io_ok :: "io_env \<Rightarrow> path \<Rightarrow> bool" where
  "io_ok env p \<longleftrightarrow>
     lock_result env (lock_path p) = Acquired
     \<and> mkdir_error env (butlast p) = None
     \<and> read_result env p = ReadOk
     \<and> write_result env p = Written"

text \<open>The records that a destination file holds, the listings of a group whose key the
  file does not store yet, and the file after a merge in which every call succeeds.\<close>

definition old_records :: "file_state \<Rightarrow> json list" where
  "old_records f = (case f of Json (JArr rs) \<Rightarrow> rs | _ \<Rightarrow> [])"

definition fresh :: "file_state \<Rightarrow> listing list \<Rightarrow> listing list" where
  "fresh f listings = filter (\<lambda>l. JStr (lid l) \<notin> set (stored_ids f)) listings"

definition merged :: "file_state \<Rightarrow> listing list \<Rightarrow> file_state" where
  "merged f listings =
     (if fresh f listings = [] then f
      else Json (JArr (old_records f @ map (\<lambda>l. JObj (to_dict l)) (fresh f listings))))"


text \<open>Sample listings: two for one destination file, one for another; a world in which
  that file holds the first listing; a world outside in which every call succeeds, and
  one in which every lock times out.\<close>

definition listing_a :: listing where
  "listing_a = \<lparr>lid = ''A'', storage_path_parts = (''Ford'', ''Focus'', ''2024-01-01''),
                other_fields = [(''price'', JNum 9500)]\<rparr>"

definition listing_b :: listing where
  "listing_b = \<lparr>lid = ''B'', storage_path_parts = (''Ford'', ''Focus'', ''2024-01-01''),
                other_fields = [(''price'', JNum 7200)]\<rparr>"

definition listing_c :: listing where
  "listing_c = \<lparr>lid = ''C'', storage_path_parts = (''Audi'', ''A4'', ''2024-01-01''),
                other_fields = []\<rparr>"

definition sample_dest :: path where
  "sample_dest = [''data'', ''classifieds'', ''Ford'', ''Focus'', ''2024-01-01'', ''listings.json'']"

definition sample_world :: store_world where
  "sample_world =
     \<lparr>files = (\<lambda>p. if p = sample_dest then Json (JArr [JObj (to_dict listing_a)]) else Missing),
      ops = [], store_log = []\<rparr>"

definition ok_env :: io_env where
  "ok_env = \<lparr>lock_result = (\<lambda>p. Acquired), mkdir_error = (\<lambda>p. None),
             read_result = (\<lambda>p. ReadOk), write_result = (\<lambda>p. Written)\<rparr>"

definition timeout_env :: io_env where
  "timeout_env = \<lparr>lock_result = (\<lambda>p. TimedOut), mkdir_error = (\<lambda>p. None),
                  read_result = (\<lambda>p. ReadOk), write_result = (\<lambda>p. Written)\<rparr>"

section \<open>Properties of the glob matcher\<close>

text \<open>The atomic groups do not change what is matched: the pieces of a group are
  followed by a star, which takes up whatever a later place for the group would have
  skipped.\<close>

lemma match_fixed_drop:
  "match_fixed ps s = Some r \<Longrightarrow> r = drop (length ps) s \<and> length ps \<le> length s"
  by (induction ps s rule: match_fixed.induct) (auto split: if_splits)

lemma first_match_drop:
  "first_match ps s = Some r \<Longrightarrow> \<exists>k. r = drop (k + length ps) s \<and> k + length ps \<le> length s"
proof (induction s)
  case Nil
  then show ?case using match_fixed_drop[of ps "[]" r] by auto
next
  case (Cons x xs)
  show ?case
  proof (cases "match_fixed ps (x # xs)")
    case None
    then have "first_match ps xs = Some r" using Cons.prems by simp
    then obtain k where "r = drop (k + length ps) xs" "k + length ps \<le> length xs"
      using Cons.IH by blast
    then have "r = drop (Suc k + length ps) (x # xs) \<and> Suc k + length ps \<le> length (x # xs)"
      by simp
    then show ?thesis by blast
  next
    case (Some r')
    then have "r' = r" using Cons.prems by simp
    then have "r = drop (0 + length ps) (x # xs) \<and> 0 + length ps \<le> length (x # xs)"
      using match_fixed_drop[OF Some] by simp
    then show ?thesis by blast
  qed
qed

lemma re_match_fixed:
  "STAR \<notin> set ps \<Longrightarrow>
   re_match (ps @ qs) s = (case match_fixed ps s of None \<Rightarrow> False | Some r \<Rightarrow> re_match qs r)"
proof (induction ps s rule: match_fixed.induct)
  case (1 s)
  then show ?case by simp
next
  case (2 p ps)
  then show ?case by (cases p) simp_all
next
  case (3 p ps x xs)
  then show ?case by (cases p) simp_all
qed

lemma re_match_STAR_prepend: "re_match (STAR # qs) t \<Longrightarrow> re_match (STAR # qs) (a @ t)"
  by (induction a) simp_all

lemma re_match_STAR_drop:
  "re_match (STAR # qs) (drop n s) \<Longrightarrow> m \<le> n \<Longrightarrow> re_match (STAR # qs) (drop m s)"
proof -
  assume a: "re_match (STAR # qs) (drop n s)" and le: "m \<le> n"
  have "drop m s = take (n - m) (drop m s) @ drop n s"
    using le by (metis append_take_drop_id drop_drop le_add_diff_inverse2)
  then show ?thesis using re_match_STAR_prepend[OF a, of "take (n - m) (drop m s)"] by simp
qed

lemma re_match_atomic:
  assumes "STAR \<notin> set fixed"
  shows "re_match (STAR # fixed @ STAR # qs) s
     = (case first_match fixed s of None \<Rightarrow> False | Some r \<Rightarrow> re_match (STAR # qs) r)"
proof (induction s)
  case Nil
  then show ?case using re_match_fixed[OF assms, of "STAR # qs" "[]"] by simp
next
  case (Cons x xs)
  have step: "re_match (STAR # fixed @ STAR # qs) (x # xs)
      = ((case match_fixed fixed (x # xs) of None \<Rightarrow> False | Some r \<Rightarrow> re_match (STAR # qs) r)
         \<or> (case first_match fixed xs of None \<Rightarrow> False | Some r \<Rightarrow> re_match (STAR # qs) r))"
    using re_match_fixed[OF assms, of "STAR # qs" "x # xs"] Cons.IH by simp
  show ?case
  proof (cases "match_fixed fixed (x # xs)")
    case None
    then show ?thesis using step by simp
  next
    case (Some r)
    have r: "r = drop (length fixed) (x # xs)" using match_fixed_drop[OF Some] by simp
    have "re_match (STAR # qs) r"
      if fm: "first_match fixed xs = Some r'" and rm: "re_match (STAR # qs) r'" for r'
    proof -
      obtain k where "r' = drop (k + length fixed) xs" using first_match_drop[OF fm] by blast
      then have "r' = drop (Suc k + length fixed) (x # xs)" by simp
      then show ?thesis
        using rm r re_match_STAR_drop[of qs "Suc k + length fixed" "x # xs" "length fixed"]
        by simp
    qed
    then show ?thesis using step Some by (auto split: option.splits)
  qed
qed

lemma match_DotStar_fixed:
  "STAR \<notin> set fixed \<Longrightarrow> match_parts [DotStar, Fixed fixed] s = re_match (STAR # fixed) s"
proof (induction s)
  case Nil
  then show ?case using re_match_fixed[of fixed "[]" "[]"] by (simp split: option.splits)
next
  case (Cons x xs)
  then show ?case using re_match_fixed[of fixed "[]" "x # xs"] by (simp split: option.splits)
qed

lemma match_DotStar: "match_parts [DotStar] s"
  by (induction s) simp_all

lemma re_match_only_STAR: "re_match [STAR] s"
  by (induction s) simp_all

lemma takeWhile_no_STAR: "STAR \<notin> set (takeWhile (\<lambda>q. q \<noteq> STAR) ps)"
  by (induction ps) auto

lemma stars_re_match: "match_parts (stars (STAR # rest)) s = re_match (STAR # rest) s"
proof (induction "length rest" arbitrary: rest s rule: less_induct)
  case less
  define fixed where "fixed = takeWhile (\<lambda>q. q \<noteq> STAR) rest"
  define more where "more = dropWhile (\<lambda>q. q \<noteq> STAR) rest"
  have split: "rest = fixed @ more" by (simp add: fixed_def more_def)
  have nf: "STAR \<notin> set fixed" unfolding fixed_def by (rule takeWhile_no_STAR)
  have st: "stars (STAR # rest) =
      (if rest = [] then [DotStar]
       else if more = [] then [DotStar, Fixed fixed] else AtomicLazy fixed # stars more)"
    unfolding fixed_def more_def by (simp only: stars.simps Let_def)
  show ?case
  proof (cases "rest = []")
    case True
    then show ?thesis by (simp add: match_DotStar re_match_only_STAR)
  next
    case False
    show ?thesis
    proof (cases more)
      case Nil
      then have "rest = fixed" using split by simp
      then have "re_match (STAR # rest) s = re_match (STAR # fixed) s" by simp
      moreover have "match_parts (stars (STAR # rest)) s = match_parts [DotStar, Fixed fixed] s"
        unfolding st using False Nil by (simp del: stars.simps)
      ultimately show ?thesis using match_DotStar_fixed[OF nf] by simp
    next
      case (Cons q more')
      have "q = STAR"
        using Cons unfolding more_def by (metis (mono_tags, lifting) dropWhile_eq_Cons_conv)
      then have more: "more = STAR # more'" using Cons by simp
      have "length more \<le> length rest"
        unfolding more_def by (rule length_dropWhile_le)
      then have "length more' < length rest" using more by simp
      then have IH: "match_parts (stars (STAR # more')) r = re_match (STAR # more') r" for r
        using less by simp
      have "match_parts (stars (STAR # rest)) s
          = (case first_match fixed s of None \<Rightarrow> False
             | Some r \<Rightarrow> match_parts (stars (STAR # more')) r)"
        unfolding st using False more by (simp del: stars.simps)
      also have "\<dots> = (case first_match fixed s of None \<Rightarrow> False
             | Some r \<Rightarrow> re_match (STAR # more') r)"
        by (simp add: IH del: stars.simps cong: option.case_cong)
      also have "\<dots> = re_match (STAR # fixed @ STAR # more') s"
        by (rule re_match_atomic[OF nf, symmetric])
      also have "\<dots> = re_match (STAR # rest) s"
        using split more by simp
      finally show ?thesis .
    qed
  qed
qed

lemma deal_with_stars_re_match: "match_parts (deal_with_stars ps) s = re_match ps s"
proof -
  define fixed where "fixed = takeWhile (\<lambda>q. q \<noteq> STAR) ps"
  define more where "more = dropWhile (\<lambda>q. q \<noteq> STAR) ps"
  have split: "ps = fixed @ more" by (simp add: fixed_def more_def)
  have nf: "STAR \<notin> set fixed" unfolding fixed_def by (rule takeWhile_no_STAR)
  have tail: "match_parts (stars more) r = re_match more r" for r
  proof (cases more)
    case Nil
    then show ?thesis by simp
  next
    case (Cons q more')
    have "q = STAR"
      using Cons unfolding more_def by (metis (mono_tags, lifting) dropWhile_eq_Cons_conv)
    then show ?thesis using Cons stars_re_match[of more' r] by (simp del: stars.simps)
  qed
  have "re_match ps s = re_match (fixed @ more) s" using split by simp
  also have "\<dots> = (case match_fixed fixed s of None \<Rightarrow> False | Some r \<Rightarrow> re_match more r)"
    by (rule re_match_fixed[OF nf])
  finally have "re_match ps s
      = (case match_fixed fixed s of None \<Rightarrow> False | Some r \<Rightarrow> match_parts (stars more) r)"
    by (simp add: tail cong: option.case_cong)
  moreover have "deal_with_stars ps = Fixed fixed # stars more"
    unfolding fixed_def more_def by (rule deal_with_stars_def)
  ultimately show ?thesis by simp
qed

lemma fnmatch_re: "fnmatch name pat = re_match (translate_loop [] pat) name"
  by (simp add: fnmatch_def translate_def deal_with_stars_re_match)


text \<open>Appending the pieces of a pattern to the pieces read so far: \<^verbatim>\<open>translate\<close>
  drops a star that follows a star, and nothing else depends on what was read before.\<close>

definition glue :: "piece list \<Rightarrow> piece list \<Rightarrow> piece list" where
  "glue res ts = (if res \<noteq> [] \<and> last res = STAR \<and> ts \<noteq> [] \<and> hd ts = STAR then res @ tl ts else res @ ts)"

lemma glue_Nil [simp]: "glue [] ts = ts" "glue res [] = res"
  by (simp_all add: glue_def)

lemma translate_loop_glue: "translate_loop res p = glue res (translate_loop [] p)"
proof (induction "length p" arbitrary: p res rule: less_induct)
  case less
  show ?case
  proof (cases p)
    case Nil
    then show ?thesis by simp
  next
    case (Cons c cs)
    have IH: "translate_loop r cs = glue r (translate_loop [] cs)" for r
      by (rule less) (simp add: Cons)
    have step: "\<And>x. x \<noteq> STAR \<Longrightarrow>
        translate_loop (res @ [x]) cs = glue res (translate_loop [x] cs)"
    proof -
      fix x :: piece assume x: "x \<noteq> STAR"
      have "translate_loop (res @ [x]) cs = glue (res @ [x]) (translate_loop [] cs)"
        by (rule IH)
      moreover have "translate_loop [x] cs = glue [x] (translate_loop [] cs)"
        by (rule IH)
      ultimately show "translate_loop (res @ [x]) cs = glue res (translate_loop [x] cs)"
        using x by (simp add: glue_def)
    qed
    show ?thesis
    proof (cases "c = CHR ''*''")
      case True
      have a: "translate_loop (res @ [STAR]) cs = glue (res @ [STAR]) (translate_loop [] cs)"
        by (rule IH)
      have b: "translate_loop [STAR] cs = glue [STAR] (translate_loop [] cs)"
        by (rule IH)
      have c: "translate_loop res cs = glue res (translate_loop [] cs)"
        by (rule IH)
      have l: "translate_loop res p =
          (if res = [] \<or> last res \<noteq> STAR then translate_loop (res @ [STAR]) cs
           else translate_loop res cs)"
        using Cons True by simp
      have r: "translate_loop [] p = translate_loop [STAR] cs"
        using Cons True by simp
      show ?thesis unfolding l r a b c
        by (cases "translate_loop [] cs") (auto simp: glue_def)
    next
      case False
      note nstar = this
      show ?thesis
      proof (cases "c = CHR ''?''")
        case True
        have l: "translate_loop res p = translate_loop (res @ [AnyChar]) cs"
          using Cons True by simp
        have r: "translate_loop [] p = translate_loop [AnyChar] cs"
          using Cons True by simp
        show ?thesis unfolding l r by (rule step) simp
      next
        case False
        note nq = this
        have lit: "translate_loop res p = glue res (translate_loop [] p)"
          if "translate_loop res p = translate_loop (res @ [Lit c]) cs"
            and "translate_loop [] p = translate_loop [Lit c] cs"
          unfolding that by (rule step) simp
        show ?thesis
        proof (cases "c = CHR ''[''")
          case False
          show ?thesis
            by (rule lit) (use Cons nstar nq False in simp_all)
        next
          case True
          show ?thesis
          proof (cases "class_span cs")
            case None
            show ?thesis
              by (rule lit) (use Cons True None in simp_all)
          next
            case (Some sa)
            obtain stuff after where sa: "sa = (stuff, after)" by (cases sa)
            have len: "length after < length p"
              using class_span_length[of cs stuff after] Some sa Cons by simp
            have ns: "class_piece stuff \<noteq> STAR"
              by (simp add: class_piece_def Let_def)
            have IH2: "translate_loop r after = glue r (translate_loop [] after)" for r
              by (rule less) (rule len)
            have l: "translate_loop res p = translate_loop (res @ [class_piece stuff]) after"
              using Cons True Some sa by simp
            have r: "translate_loop [] p = translate_loop [class_piece stuff] after"
              using Cons True Some sa by simp
            have a: "translate_loop (res @ [class_piece stuff]) after
                = glue (res @ [class_piece stuff]) (translate_loop [] after)"
              by (rule IH2)
            have b: "translate_loop [class_piece stuff] after
                = glue [class_piece stuff] (translate_loop [] after)"
              by (rule IH2)
            show ?thesis unfolding l r a b using ns by (simp add: glue_def)
          qed
        qed
      qed
    qed
  qed
qed

lemma re_match_STAR: "re_match (STAR # ps) T \<longleftrightarrow> (\<exists>s t. T = s @ t \<and> re_match ps t)"
proof (induction T)
  case Nil
  then show ?case by simp
next
  case (Cons x xs)
  show ?case
  proof
    assume "re_match (STAR # ps) (x # xs)"
    then consider "re_match ps (x # xs)" | "re_match (STAR # ps) xs" by auto
    then show "\<exists>s t. x # xs = s @ t \<and> re_match ps t"
    proof cases
      case 1
      then show ?thesis by (rule_tac x="[]" in exI) simp
    next
      case 2
      then obtain s t where "xs = s @ t" "re_match ps t" using Cons by blast
      then show ?thesis by (rule_tac x="x # s" in exI) simp
    qed
  next
    assume "\<exists>s t. x # xs = s @ t \<and> re_match ps t"
    then obtain s t where st: "x # xs = s @ t" "re_match ps t" by blast
    show "re_match (STAR # ps) (x # xs)"
    proof (cases s)
      case Nil
      then have "re_match ps (x # xs)" using st by simp
      then show ?thesis by simp
    next
      case (Cons y ys)
      then have "xs = ys @ t" using st by simp
      then have "re_match (STAR # ps) xs" using Cons.IH st(2) by blast
      then show ?thesis by simp
    qed
  qed
qed

lemma re_match_STAR_STAR: "re_match (STAR # STAR # ps) T = re_match (STAR # ps) T"
  by (induction T) auto

lemma re_match_glue_STAR: "re_match (glue [STAR] ts) T = re_match (STAR # ts) T"
  by (cases ts) (auto simp: glue_def re_match_STAR_STAR)

lemma fnmatch_star_cons: "fnmatch T (CHR ''*'' # p) \<longleftrightarrow> (\<exists>s t. T = s @ t \<and> fnmatch t p)"
  unfolding fnmatch_re
  by (simp add: translate_loop_glue[of "[STAR]"] re_match_glue_STAR re_match_STAR)

lemma fnmatch_question_cons: "fnmatch T (CHR ''?'' # p) \<longleftrightarrow> (\<exists>c t. T = c # t \<and> fnmatch t p)"
  unfolding fnmatch_re
  by (cases T) (simp_all add: translate_loop_glue[of "[AnyChar]"] glue_def)


lemma fnmatch_nil: "fnmatch T [] \<longleftrightarrow> T = []"
  by (simp add: fnmatch_re)

lemma fnmatch_dot_cons:
  "fnmatch T (CHR ''.'' # p) \<longleftrightarrow> (\<exists>t. T = CHR ''.'' # t \<and> fnmatch t p)"
  unfolding fnmatch_re
  by (cases T) (auto simp: translate_loop_glue[of "[Lit (CHR ''.'')]"] glue_def)

text \<open>A character of the pattern other than \<^verbatim>\<open>*\<close>, \<^verbatim>\<open>?\<close> and \<^verbatim>\<open>[\<close> matches itself
  and nothing else.\<close>

lemma fnmatch_literal_cons:
  assumes "c \<noteq> CHR ''*''" "c \<noteq> CHR ''?''" "c \<noteq> CHR ''[''"
  shows "fnmatch T (c # p) \<longleftrightarrow> (\<exists>t. T = c # t \<and> fnmatch t p)"
  using assms unfolding fnmatch_re
  by (cases T) (auto simp: translate_loop_glue[of "[Lit c]"] glue_def)

text \<open>
  \<^bold>\<open>Claim C2\<close> says that \<^verbatim>\<open>*\<close> matches a run of non-empty characters. The run that a star
  matches may be empty: \<^verbatim>\<open>a.*\<close> matches \<^verbatim>\<open>a.\<close>, where nothing follows the dot, and
  \<^verbatim>\<open>*\<close> matches the empty topic; so it is not the case that a star in front of a pattern
  matches exactly the topics with a non-empty run in front of a match of the pattern.
\<close>

theorem star_matches_empty_run:
  "fnmatch ''a.'' ''a.*'' \<and> fnmatch [] ''*''
   \<and> \<not> (\<forall>T p. fnmatch T (CHR ''*'' # p)
                \<longleftrightarrow> (\<exists>s t. s \<noteq> [] \<and> T = s @ t \<and> fnmatch t p))"
proof -
  have a: "fnmatch ''a.'' ''a.*''"
    by (simp add: fnmatch_re)
  have e: "fnmatch [] ''*''"
    by (simp add: fnmatch_re)
  have "\<not> (\<forall>T p. fnmatch T (CHR ''*'' # p)
      \<longleftrightarrow> (\<exists>s t. s \<noteq> [] \<and> T = s @ t \<and> fnmatch t p))"
  proof
    assume "\<forall>T p. fnmatch T (CHR ''*'' # p)
      \<longleftrightarrow> (\<exists>s t. s \<noteq> [] \<and> T = s @ t \<and> fnmatch t p)"
    then have "fnmatch [] ''*'' \<longleftrightarrow> (\<exists>s t. s \<noteq> [] \<and> [] = s @ t \<and> fnmatch t [])"
      by blast
    then show False using e by simp
  qed
  then show ?thesis using a e by simp
qed

text \<open>
  \<^bold>\<open>Claim C2, amended.\<close> Topic patterns are matched against the topic as one string. The
  pattern \<^verbatim>\<open>*\<close> matches every topic, the empty one too; \<^verbatim>\<open>a.*\<close> matches \<^verbatim>\<open>a.b\<close>,
  \<^verbatim>\<open>a.b.c\<close> and \<^verbatim>\<open>a.\<close>, and does not match \<^verbatim>\<open>b.a\<close>. A \<^verbatim>\<open>*\<close> in front of a pattern
  \<open>p\<close> matches any run of characters \<open>s\<close>, empty or not, dots included, in front of a
  topic that \<open>p\<close> matches, and only such topics match; a \<^verbatim>\<open>?\<close> in front of \<open>p\<close> matches
  exactly one character, whatever it is; a dot in the pattern is an ordinary character
  that matches a dot.
\<close>

theorem glob_star_question:
  "(\<forall>T. fnmatch T ''*'')
   \<and> fnmatch ''a.b'' ''a.*'' \<and> fnmatch ''a.b.c'' ''a.*'' \<and> \<not> fnmatch ''b.a'' ''a.*''
   \<and> fnmatch ''a.'' ''a.*''
   \<and> (\<forall>T p. fnmatch T (CHR ''*'' # p) \<longleftrightarrow> (\<exists>s t. T = s @ t \<and> fnmatch t p))
   \<and> (\<forall>T p. fnmatch T (CHR ''?'' # p) \<longleftrightarrow> (\<exists>c t. T = c # t \<and> fnmatch t p))
   \<and> (\<forall>T p. fnmatch T (CHR ''.'' # p) \<longleftrightarrow> (\<exists>t. T = CHR ''.'' # t \<and> fnmatch t p))"
proof -
  have star: "fnmatch T ''*''" for T
    by (simp add: fnmatch_star_cons fnmatch_nil)
  have ab: "fnmatch ''a.b'' ''a.*''"
    by (simp add: fnmatch_re)
  have abc: "fnmatch ''a.b.c'' ''a.*''"
    by (simp add: fnmatch_re)
  have ba: "\<not> fnmatch ''b.a'' ''a.*''"
    by (simp add: fnmatch_re)
  have adot: "fnmatch ''a.'' ''a.*''"
    by (simp add: fnmatch_re)
  show ?thesis
    using star ab abc ba adot fnmatch_star_cons fnmatch_question_cons fnmatch_dot_cons
    by blast
qed

section \<open>Properties of the topic bus\<close>

lemma length_run_pairs: "length (fst (run_pairs ps w)) = length ps"
proof (induction ps arbitrary: w)
  case Nil
  then show ?case by simp
next
  case (Cons p ps)
  obtain s ev where p: "p = (s, ev)" by (cases p)
  obtain r w' where h: "handler s ev w = (r, w')" by (cases "handler s ev w")
  obtain rs w'' where rh: "run_pairs ps w' = (rs, w'')" by (cases "run_pairs ps w'")
  show ?case using Cons.IH[of w'] p h rh by simp
qed

lemma after_run_Nil: "after_run [] st = st"
  by (simp add: after_run_def)

lemma after_run_Cons: "after_run ((s, ev) # ps) st = after_run ps (snd (invoke s ev st))"
proof -
  obtain r w where h: "handler s ev (world st) = (r, w)" by (cases "handler s ev (world st)")
  obtain rs w' where rh: "run_pairs ps w = (rs, w')" by (cases "run_pairs ps w")
  show ?thesis
    by (cases r) (simp_all add: after_run_def invoke_def Let_def call_of_def h rh)
qed

lemma fst_invoke: "fst (invoke s ev st) = Inr ()"
  by (auto simp: invoke_def Let_def split: prod.splits sum.splits)

lemma for_each_invoke:
  "for_each (\<lambda>sub. invoke sub ev) ms st = (Inr (), after_run (map (\<lambda>s. (s, ev)) ms) st)"
proof (induction ms arbitrary: st)
  case Nil
  then show ?case by (simp add: after_run_Nil)
next
  case (Cons s ss)
  obtain r st1 where i: "invoke s ev st = (r, st1)" by (cases "invoke s ev st")
  have r: "r = Inr ()" using fst_invoke[of s ev st] i by simp
  show ?case using Cons.IH[of st1] i r by (simp add: after_run_Cons)
qed

lemma deliver_all:
  "n = length (queue b) \<Longrightarrow> deliver n b st = (b\<lparr>queue := []\<rparr>, after_run (queue b) st)"
proof (induction n arbitrary: b st)
  case 0
  then show ?case by (simp add: after_run_Nil)
next
  case (Suc n)
  then obtain s e q where q: "queue b = (s, e) # q" by (cases "queue b") auto
  have "n = length (queue (b\<lparr>queue := q\<rparr>))" using Suc.prems q by simp
  from Suc.IH[OF this, of "snd (invoke s e st)"] show ?case
    using q by (simp add: delivery_step_def after_run_Cons)
qed

lemma after_run_append: "after_run (ps @ qs) st = after_run qs (after_run ps st)"
proof (induction ps arbitrary: st)
  case Nil
  then show ?case by (simp add: after_run_Nil)
next
  case (Cons p ps)
  obtain s ev where p: "p = (s, ev)" by (cases p)
  show ?case using Cons.IH by (simp add: p after_run_Cons)
qed

lemma calls_after_run: "calls (after_run ps st) = calls st @ map call_of ps"
  by (simp add: after_run_def)

lemma logged_after_run:
  "logged (after_run ps st) = logged st @ error_lines ps (fst (run_pairs ps (world st)))"
  by (simp add: after_run_def)

lemma publish_sync:
  "\<not> async b \<Longrightarrow> publish b now tp ex d st =
     (Inr (), b, after_run (map (\<lambda>s. (s, \<lparr>topic = tp, exchange = ex, data = d, timestamp = now\<rparr>))
                     (filter (\<lambda>s. matches s tp) (subs b))) st)"
  by (simp add: publish_def Let_def for_each_invoke)

lemma publish_async:
  "async b \<Longrightarrow> publish b now tp ex d st =
     (Inr (), b\<lparr>queue := queue b @ map (\<lambda>s. (s, \<lparr>topic = tp, exchange = ex, data = d, timestamp = now\<rparr>))
                     (filter (\<lambda>s. matches s tp) (subs b))\<rparr>, st)"
  by (simp add: publish_def Let_def)

lemma error_lines_member:
  "i < length ps \<Longrightarrow> length rs = length ps \<Longrightarrow> rs ! i = Inl e \<Longrightarrow>
   HandlerError (topic (snd (ps ! i))) (take 8 (sub_id (fst (ps ! i)))) (str_exn e)
     \<in> set (error_lines ps rs)"
proof (induction ps arbitrary: rs i)
  case Nil
  then show ?case by simp
next
  case (Cons p ps)
  obtain s ev where p: "p = (s, ev)" by (cases p)
  obtain r rs' where rs: "rs = r # rs'" using Cons.prems(2) by (cases rs) auto
  show ?case
  proof (cases i)
    case 0
    then show ?thesis using Cons.prems p rs by simp
  next
    case (Suc j)
    then have "HandlerError (topic (snd (ps ! j))) (take 8 (sub_id (fst (ps ! j)))) (str_exn e)
        \<in> set (error_lines ps rs')"
      using Cons.IH[of j rs'] Cons.prems rs by simp
    then show ?thesis using Suc p rs by (cases r) simp_all
  qed
qed

lemma count_list_map_filter_distinct:
  assumes "distinct (map f xs)" "x \<in> set xs"
  shows "count_list (map (\<lambda>s. (f s, c)) (filter P xs)) (f x, c) = (if P x then 1 else 0)"
  using assms
proof (induction xs)
  case Nil
  then show ?case by simp
next
  case (Cons a xs)
  show ?case
  proof (cases "x = a")
    case True
    have "f a \<notin> f ` set xs" using Cons.prems(1) by simp
    then have "count_list (map (\<lambda>s. (f s, c)) (filter P xs)) (f a, c) = 0"
      by (auto simp: count_list_0_iff)
    then show ?thesis using True by simp
  next
    case False
    then have xin: "x \<in> set xs" using Cons.prems by simp
    then have "f a \<noteq> f x" using Cons.prems(1) by force
    then show ?thesis using Cons.IH xin Cons.prems(1) by simp
  qed
qed


lemma world_run_pairs:
  "snd (run_pairs ps w) = foldl (\<lambda>w p. snd (handler (fst p) (snd p) w)) w ps"
proof (induction ps arbitrary: w)
  case Nil
  then show ?case by simp
next
  case (Cons p ps)
  obtain s ev where p: "p = (s, ev)" by (cases p)
  obtain r w' where h: "handler s ev w = (r, w')" by (cases "handler s ev w")
  obtain rs w'' where rh: "run_pairs ps w' = (rs, w'')" by (cases "run_pairs ps w'")
  show ?case using Cons.IH[of w'] p h rh by simp
qed

lemma world_after_run:
  "world (after_run ps st) = foldl (\<lambda>w p. snd (handler (fst p) (snd p) w)) (world st) ps"
  by (simp add: after_run_def world_run_pairs)

lemma foldl_map_pairs:
  "foldl (\<lambda>w p. snd (handler (fst p) (snd p) w)) w (map (\<lambda>s. (s, ev)) ms)
     = foldl (\<lambda>w s. snd (handler s ev w)) w ms"
  by (induction ms arbitrary: w) simp_all

text \<open>
  \<^bold>\<open>Claim C3.\<close> A call of \<^verbatim>\<open>publish\<close> on topic \<open>tp\<close> builds one event, stamped with the
  current time, and delivers it exactly once to every subscription that is in the bus's
  list when the call reads it and whose pattern matches \<open>tp\<close>, and to no other
  subscription. On a synchronous bus the call runs the handler of each matching
  subscription once on the event, in the order of the list, and no other handler: the
  world after the call is the world after these runs, and the invocations recorded are
  these. On an asynchronous bus the call runs no handler; it appends one
  (subscription, event) pair per matching subscription to the queue, and the delivery
  worker runs the handler of every queued pair once, oldest first. Subscriptions are
  told apart by their ids, which are distinct (\<^verbatim>\<open>uuid4\<close>).
\<close>

theorem publish_delivers_exactly_once:
  fixes b :: "('d, 'w) event_bus"
  assumes ids: "distinct (map sub_id (subs b))"
    and pub: "publish b now tp ex d st = (r, b', st')"
  shows "let ev = \<lparr>topic = tp, exchange = ex, data = d, timestamp = now\<rparr>;
             matched = filter (\<lambda>s. matches s tp) (subs b);
             delivered = map (\<lambda>s. (sub_id s, ev)) matched
         in (if async b
             then queue b' = queue b @ map (\<lambda>s. (s, ev)) matched \<and> calls st' = calls st
                  \<and> world st' = world st
                  \<and> calls (snd (deliver (length (queue b')) b' st'))
                      = calls st @ map call_of (queue b) @ delivered
                  \<and> world (snd (deliver (length (queue b')) b' st'))
                      = foldl (\<lambda>w s. snd (handler s ev w))
                          (foldl (\<lambda>w p. snd (handler (fst p) (snd p) w)) (world st) (queue b))
                          matched
             else calls st' = calls st @ delivered \<and> queue b' = queue b
                  \<and> world st' = foldl (\<lambda>w s. snd (handler s ev w)) (world st) matched)
            \<and> (\<forall>s \<in> set (subs b).
                  count_list delivered (sub_id s, ev) = (if matches s tp then 1 else 0))
            \<and> (\<forall>c \<in> set delivered. \<exists>s \<in> set (subs b). matches s tp \<and> c = (sub_id s, ev))"
proof -
  define ev where "ev = \<lparr>topic = tp, exchange = ex, data = d, timestamp = now\<rparr>"
  define matched where "matched = filter (\<lambda>s. matches s tp) (subs b)"
  define delivered where "delivered = map (\<lambda>s. (sub_id s, ev)) matched"
  have del: "map call_of (map (\<lambda>s. (s, ev)) matched) = delivered"
    by (simp add: delivered_def call_of_def comp_def)
  have mode: "if async b
      then queue b' = queue b @ map (\<lambda>s. (s, ev)) matched \<and> calls st' = calls st
           \<and> world st' = world st
           \<and> calls (snd (deliver (length (queue b')) b' st'))
               = calls st @ map call_of (queue b) @ delivered
           \<and> world (snd (deliver (length (queue b')) b' st'))
               = foldl (\<lambda>w s. snd (handler s ev w))
                   (foldl (\<lambda>w p. snd (handler (fst p) (snd p) w)) (world st) (queue b))
                   matched
      else calls st' = calls st @ delivered \<and> queue b' = queue b
           \<and> world st' = foldl (\<lambda>w s. snd (handler s ev w)) (world st) matched"
  proof (cases "async b")
    case True
    have "publish b now tp ex d st
        = (Inr (), b\<lparr>queue := queue b @ map (\<lambda>s. (s, ev)) matched\<rparr>, st)"
      unfolding ev_def matched_def by (rule publish_async[OF True])
    with pub have p: "b' = b\<lparr>queue := queue b @ map (\<lambda>s. (s, ev)) matched\<rparr>" "st' = st"
      by simp_all
    have dl: "deliver (length (queue b')) b' st' = (b'\<lparr>queue := []\<rparr>, after_run (queue b') st')"
      by (rule deliver_all) simp
    then have c: "calls (snd (deliver (length (queue b')) b' st')) = calls st' @ map call_of (queue b')"
      by (simp add: calls_after_run)
    have w: "world (snd (deliver (length (queue b')) b' st'))
        = foldl (\<lambda>w s. snd (handler s ev w))
            (foldl (\<lambda>w p. snd (handler (fst p) (snd p) w)) (world st) (queue b)) matched"
      using dl p by (simp add: world_after_run foldl_map_pairs)
    show ?thesis using True p del c w by simp
  next
    case False
    have "publish b now tp ex d st = (Inr (), b, after_run (map (\<lambda>s. (s, ev)) matched) st)"
      unfolding ev_def matched_def by (rule publish_sync[OF False])
    with pub have "st' = after_run (map (\<lambda>s. (s, ev)) matched) st" "b' = b"
      by simp_all
    then show ?thesis using False del
      by (simp add: calls_after_run world_after_run foldl_map_pairs)
  qed
  have once: "\<forall>s \<in> set (subs b).
      count_list delivered (sub_id s, ev) = (if matches s tp then 1 else 0)"
    unfolding delivered_def matched_def
    using count_list_map_filter_distinct[OF ids, of _ ev "\<lambda>s. matches s tp"] by blast
  have only: "\<forall>c \<in> set delivered. \<exists>s \<in> set (subs b). matches s tp \<and> c = (sub_id s, ev)"
    unfolding delivered_def matched_def by auto
  show ?thesis
    using mode once only unfolding Let_def ev_def[symmetric] matched_def[symmetric] delivered_def[symmetric]
    by blast
qed

lemma sample_publish:
  "publish sample_bus 5 ''odds.alpha'' ''alpha'' () sample_effects =
    (Inr (), sample_bus,
     \<lparr>world = 1,
      logged = [HandlerError ''odds.alpha'' ''0a1b2c3d'' ''boom''],
      calls = [(''0a1b2c3d-0001'', \<lparr>topic = ''odds.alpha'', exchange = ''alpha'', data = (), timestamp = 5\<rparr>),
               (''0a1b2c3d-0003'', \<lparr>topic = ''odds.alpha'', exchange = ''alpha'', data = (), timestamp = 5\<rparr>)]\<rparr>)"
  by (simp add: publish_def sample_bus_def sample_effects_def matches_def fnmatch_re
      invoke_def failing_handler_def counting_handler_def Let_def)

theorem publish_delivers_exactly_once_witness:
  "distinct (map sub_id (subs sample_bus))
   \<and> calls (snd (snd (publish sample_bus 5 ''odds.alpha'' ''alpha'' () sample_effects)))
       = [(''0a1b2c3d-0001'', \<lparr>topic = ''odds.alpha'', exchange = ''alpha'', data = (), timestamp = 5\<rparr>),
          (''0a1b2c3d-0003'', \<lparr>topic = ''odds.alpha'', exchange = ''alpha'', data = (), timestamp = 5\<rparr>)]
   \<and> world (snd (snd (publish sample_bus 5 ''odds.alpha'' ''alpha'' () sample_effects))) = 1"
proof -
  have d: "distinct (map sub_id (subs sample_bus))"
    by (simp add: sample_bus_def)
  note t = publish_delivers_exactly_once[OF d sample_publish]
  show ?thesis
    using d t by (simp add: sample_publish)
qed

text \<open>
  \<^bold>\<open>Claim C6.\<close> A call of \<^verbatim>\<open>publish\<close> returns normally whatever the handlers do. Every
  subscription matched for the event has its handler invoked, whether or not the handlers
  before it raised, and for every handler that raises an exception one line is logged
  with the topic, the first eight characters of the subscription id and the text of the
  exception. On an asynchronous bus the handlers run in the delivery worker, which logs a
  failure in the same way and goes on with the queue.
\<close>

theorem handler_failure_is_contained:
  fixes b :: "('d, 'w) event_bus"
  assumes pub: "publish b now tp ex d st = (r, b', st')"
  shows "r = Inr ()
     \<and> (let ev = \<lparr>topic = tp, exchange = ex, data = d, timestamp = now\<rparr>;
             pairs = map (\<lambda>s. (s, ev)) (filter (\<lambda>s. matches s tp) (subs b));
             st0 = (if async b then after_run (queue b) st else st);
             fin = (if async b then snd (deliver (length (queue b')) b' st') else st');
             outcomes = fst (run_pairs pairs (world st0))
         in calls fin = calls st0 @ map call_of pairs
            \<and> logged fin = logged st0 @ error_lines pairs outcomes
            \<and> (\<forall>i < length pairs. \<forall>e. outcomes ! i = Inl e \<longrightarrow>
                  HandlerError tp (take 8 (sub_id (fst (pairs ! i)))) (str_exn e) \<in> set (logged fin)))"
proof -
  define ev where "ev = \<lparr>topic = tp, exchange = ex, data = d, timestamp = now\<rparr>"
  define pairs where "pairs = map (\<lambda>s. (s, ev)) (filter (\<lambda>s. matches s tp) (subs b))"
  define st0 where "st0 = (if async b then after_run (queue b) st else st)"
  define fin where "fin = (if async b then snd (deliver (length (queue b')) b' st') else st')"
  define outcomes where "outcomes = fst (run_pairs pairs (world st0))"
  have r: "r = Inr ()" and fin: "fin = after_run pairs st0"
  proof -
    show "r = Inr ()" using pub by (cases "async b") (simp_all add: publish_sync publish_async)
    show "fin = after_run pairs st0"
    proof (cases "async b")
      case True
      have "publish b now tp ex d st = (Inr (), b\<lparr>queue := queue b @ pairs\<rparr>, st)"
        unfolding pairs_def ev_def by (rule publish_async[OF True])
      with pub have p: "b' = b\<lparr>queue := queue b @ pairs\<rparr>" "st' = st" by simp_all
      have "deliver (length (queue b')) b' st' = (b'\<lparr>queue := []\<rparr>, after_run (queue b') st')"
        by (rule deliver_all) simp
      then show ?thesis using True p by (simp add: fin_def st0_def after_run_append)
    next
      case False
      have "publish b now tp ex d st = (Inr (), b, after_run pairs st)"
        unfolding pairs_def ev_def by (rule publish_sync[OF False])
      with pub show ?thesis using False by (simp add: fin_def st0_def)
    qed
  qed
  have c: "calls fin = calls st0 @ map call_of pairs"
    by (simp add: fin calls_after_run)
  have l: "logged fin = logged st0 @ error_lines pairs outcomes"
    by (simp add: fin logged_after_run outcomes_def)
  have m: "\<forall>i < length pairs. \<forall>e. outcomes ! i = Inl e \<longrightarrow>
      HandlerError tp (take 8 (sub_id (fst (pairs ! i)))) (str_exn e) \<in> set (logged fin)"
  proof (intro allI impI)
    fix i e assume i: "i < length pairs" and o: "outcomes ! i = Inl e"
    have len: "length outcomes = length pairs"
      by (simp add: outcomes_def length_run_pairs)
    have "snd (pairs ! i) = ev" using i by (simp add: pairs_def)
    then have "topic (snd (pairs ! i)) = tp" by (simp add: ev_def)
    with error_lines_member[OF i len o] show
      "HandlerError tp (take 8 (sub_id (fst (pairs ! i)))) (str_exn e) \<in> set (logged fin)"
      by (simp add: l)
  qed
  show ?thesis
    using r c l m
    unfolding Let_def ev_def[symmetric] pairs_def[symmetric] st0_def[symmetric]
      fin_def[symmetric] outcomes_def[symmetric]
    by blast
qed

theorem handler_failure_is_contained_witness:
  "fst (publish sample_bus 5 ''odds.alpha'' ''alpha'' () sample_effects) = Inr ()
   \<and> logged (snd (snd (publish sample_bus 5 ''odds.alpha'' ''alpha'' () sample_effects)))
       = [HandlerError ''odds.alpha'' ''0a1b2c3d'' ''boom'']
   \<and> map fst (calls (snd (snd (publish sample_bus 5 ''odds.alpha'' ''alpha'' () sample_effects))))
       = [''0a1b2c3d-0001'', ''0a1b2c3d-0003'']"
  using handler_failure_is_contained[OF sample_publish]
  by (simp add: sample_publish)


section \<open>Properties of the auth manager\<close>

subsection \<open>The invariant\<close>

lemma set_update_subset: "set (AList.update k v al) \<subseteq> insert (k, v) (set al)"
  by (induction al) auto

lemma select_targets_subset:
  "select_targets now force m cs = Inr ts \<Longrightarrow> set ts \<subseteq> set cs"
proof (induction cs arbitrary: ts)
  case Nil
  then show ?case by simp
next
  case (Cons p cs)
  obtain name c where p: "p = (name, c)" by (cases p)
  from Cons.prems p obtain need ts' where
    "select_targets now force m cs = Inr ts'" "ts = (if need then (name, c) # ts' else ts')"
    by (auto split: sum.splits if_splits)
  then show ?case using Cons.IH[of ts'] p by auto
qed

lemma auth_one_dated:
  "status (auth_one env name c) = SUCCESS \<Longrightarrow> authenticated_at (auth_one env name c) \<noteq> None"
  by (auto simp: auth_one_def split: sum.splits if_splits)

lemma store_results_inv:
  assumes "fst ` set ts \<subseteq> fst ` set rs"
    and "list_all (\<lambda>(name, r). status r = SUCCESS \<longrightarrow> authenticated_at r \<noteq> None) rs"
  shows "map fst (foldl (\<lambda>rs (name, c). AList.update name (auth_one env name c) rs) rs ts) = map fst rs
     \<and> list_all (\<lambda>(name, r). status r = SUCCESS \<longrightarrow> authenticated_at r \<noteq> None)
          (foldl (\<lambda>rs (name, c). AList.update name (auth_one env name c) rs) rs ts)"
  using assms
proof (induction ts arbitrary: rs)
  case Nil
  then show ?case by simp
next
  case (Cons p ts)
  obtain name c where p: "p = (name, c)" by (cases p)
  let ?rs = "AList.update name (auth_one env name c) rs"
  have k: "map fst ?rs = map fst rs"
    using Cons.prems(1) p by (simp add: update_keys)
  have "set ?rs \<subseteq> insert (name, auth_one env name c) (set rs)"
    by (rule set_update_subset)
  then have d: "list_all (\<lambda>(name, r). status r = SUCCESS \<longrightarrow> authenticated_at r \<noteq> None) ?rs"
    using Cons.prems(2) auth_one_dated[of env name c] by (auto simp: list_all_iff)
  have "fst ` set ts \<subseteq> fst ` set ?rs"
    using Cons.prems(1) by (simp add: dom_update) blast
  from Cons.IH[OF this d] show ?case using p k by simp
qed

lemma new_auth_manager_inv:
  "distinct (map fst cl) \<Longrightarrow> manager_inv (new_auth_manager cl ttl mw)"
  by (auto simp: manager_inv_def new_auth_manager_def list_all_iff comp_def case_prod_beta)

lemma authenticate_all_inv:
  assumes "manager_inv m" "authenticate_all env now force m = Inr (names, m')"
  shows "manager_inv m'"
proof -
  from assms(2) obtain ts where ts: "select_targets now force m (clients m) = Inr ts"
    by (auto simp: authenticate_all_def split: sum.splits)
  show ?thesis
  proof (cases "ts = []")
    case True
    then show ?thesis using assms ts by (simp add: authenticate_all_def)
  next
    case False
    then have m': "m' = m\<lparr>results := foldl (\<lambda>rs (name, c). AList.update name (auth_one env name c) rs)
                                       (results m) ts\<rparr>"
      using assms(2) ts by (simp add: authenticate_all_def split: if_splits)
    have "set ts \<subseteq> set (clients m)" by (rule select_targets_subset[OF ts])
    then have "fst ` set ts \<subseteq> fst ` set (clients m)" by blast
    moreover have "fst ` set (clients m) = fst ` set (results m)"
      using assms(1) by (metis manager_inv_def set_map)
    ultimately have sub: "fst ` set ts \<subseteq> fst ` set (results m)" by simp
    have d: "list_all (\<lambda>(name, r). status r = SUCCESS \<longrightarrow> authenticated_at r \<noteq> None) (results m)"
      using assms(1) by (simp add: manager_inv_def)
    from store_results_inv[OF sub d, of env] show ?thesis
      using assms(1) by (simp add: manager_inv_def m')
  qed
qed

lemma manager_inv_keys:
  "manager_inv m \<Longrightarrow> fst ` set (clients m) \<subseteq> fst ` set (results m)"
  by (metis manager_inv_def set_map subset_refl)

lemma refresh_expired_inv:
  assumes "manager_inv m" "refresh_expired env now m = Inr (names, m')"
  shows "manager_inv m'"
  using assms authenticate_all_inv[of m env now False names m']
  by (auto simp: refresh_expired_def Let_def split: if_splits)

lemma mark_expired_keys: "map fst (results (mark_expired now m)) = map fst (results m)"
  by (simp add: mark_expired_def comp_def case_prod_beta if_distrib[of fst])

lemma mark_expired_inv: "manager_inv m \<Longrightarrow> manager_inv (mark_expired now m)"
  unfolding manager_inv_def mark_expired_keys
  by (auto simp: mark_expired_def list_all_iff split: if_splits)

lemma is_expired_iff:
  "is_expired now m r \<longleftrightarrow> (\<exists>t. authenticated_at r = Some t \<and> t + token_ttl m \<le> now)"
  by (cases "authenticated_at r") (auto simp: is_expired_def)

lemma collect_clients_found:
  assumes "fst ` set rs \<subseteq> fst ` set cl"
  shows "collect_clients cl rs =
     Inr (map (\<lambda>(name, r). (name, the (map_of cl name))) (filter (\<lambda>(name, r). status r = SUCCESS) rs))"
  using assms
proof (induction rs)
  case Nil
  then show ?case by simp
next
  case (Cons p rs)
  obtain name r where p: "p = (name, r)" by (cases p)
  have "name \<in> fst ` set cl" using Cons.prems p by simp
  then obtain c where c: "map_of cl name = Some c"
    by (metis domD dom_map_of_conv_image_fst)
  have "fst ` set rs \<subseteq> fst ` set cl" using Cons.prems by simp
  from Cons.IH[OF this] show ?case using p c by simp
qed


lemma sample_manager_inv: "manager_inv sample_manager"
  by (simp add: manager_inv_def sample_manager_def)

lemma sample_refresh:
  "refresh_expired sample_adapters 4000 sample_manager =
     Inr ([''alpha'', ''gamma''],
          sample_manager\<lparr>results :=
            [(''alpha'', \<lparr>ar_exchange = ''alpha'', status = SUCCESS,
                          authenticated_at = Some 4001, error = None\<rparr>),
             (''beta'', \<lparr>ar_exchange = ''beta'', status = SUCCESS,
                         authenticated_at = Some 1000, error = None\<rparr>),
             (''gamma'', \<lparr>ar_exchange = ''gamma'', status = FAILED,
                          authenticated_at = None, error = Some ''ConnectionError: refused''\<rparr>)]\<rparr>)"
  by (simp add: refresh_expired_def authenticate_all_def sample_manager_def sample_adapters_def
      needs_auth_def is_expired_def auth_one_def)


subsection \<open>Refreshing\<close>

lemma needs_auth_found:
  "map_of (results m) name = Some r \<Longrightarrow> needs_auth now m name = Inr (is_stale now m r)"
  by (cases "status r") (simp_all add: needs_auth_def is_stale_def)

lemma select_targets_none:
  assumes "fst ` set cs \<subseteq> fst ` set (results m)"
    and "\<forall>(name, r) \<in> set (results m). \<not> is_stale now m r"
  shows "select_targets now False m cs = Inr []"
  using assms(1)
proof (induction cs)
  case Nil
  then show ?case by simp
next
  case (Cons p cs)
  obtain name c where p: "p = (name, c)" by (cases p)
  have "name \<in> fst ` set (results m)" using Cons.prems p by simp
  then obtain r where r: "map_of (results m) name = Some r"
    by (metis domD dom_map_of_conv_image_fst)
  then have "(name, r) \<in> set (results m)" by (rule map_of_SomeD)
  then have "\<not> is_stale now m r" using assms(2) by auto
  then have "needs_auth now m name = Inr False" using needs_auth_found[OF r] by simp
  moreover have "select_targets now False m cs = Inr []" using Cons by simp
  ultimately show ?case using p by simp
qed


text \<open>
  \<^bold>\<open>Claim C4.\<close> From the same state of the manager and at the same time,
  \<^verbatim>\<open>refresh_expired()\<close> and \<^verbatim>\<open>authenticate_all(force=False)\<close> call \<^verbatim>\<open>authenticate()\<close>
  on the same adapters, leave the manager in the same state and return the same
  dictionary of results (or raise the same exception). The state is one in which every
  client has a result, as in every manager built by the constructor.
\<close>

theorem refresh_expired_is_authenticate_all:
  assumes "fst ` set (clients m) \<subseteq> fst ` set (results m)"
  shows "refresh_expired env now m = authenticate_all env now False m"
proof (cases "filter (\<lambda>(name, r). is_stale now m r) (results m) = []")
  case True
  then have none: "\<forall>(name, r) \<in> set (results m). \<not> is_stale now m r"
    by (auto simp: filter_empty_conv)
  have "select_targets now False m (clients m) = Inr []"
    by (rule select_targets_none[OF assms none])
  then have "authenticate_all env now False m = Inr ([], m)"
    by (simp add: authenticate_all_def)
  moreover have "refresh_expired env now m = Inr ([], m)"
    using True by (simp add: refresh_expired_def is_stale_def)
  ultimately show ?thesis by simp
next
  case False
  then show ?thesis by (simp add: refresh_expired_def is_stale_def)
qed


theorem refresh_expired_is_authenticate_all_witness:
  "fst ` set (clients sample_manager) \<subseteq> fst ` set (results sample_manager)
   \<and> authenticate_all sample_adapters 4000 False sample_manager =
     Inr ([''alpha'', ''gamma''],
          sample_manager\<lparr>results :=
            [(''alpha'', \<lparr>ar_exchange = ''alpha'', status = SUCCESS,
                          authenticated_at = Some 4001, error = None\<rparr>),
             (''beta'', \<lparr>ar_exchange = ''beta'', status = SUCCESS,
                         authenticated_at = Some 1000, error = None\<rparr>),
             (''gamma'', \<lparr>ar_exchange = ''gamma'', status = FAILED,
                          authenticated_at = None, error = Some ''ConnectionError: refused''\<rparr>)]\<rparr>)"
proof -
  have k: "fst ` set (clients sample_manager) \<subseteq> fst ` set (results sample_manager)"
    by (simp add: sample_manager_def)
  from refresh_expired_is_authenticate_all[OF k, of sample_adapters 4000]
  show ?thesis using k by (simp add: sample_refresh)
qed

text \<open>A manager whose client dictionary was given a client after construction.\<close>

lemma client_without_result:
  "refresh_expired env now \<lparr>clients = [(''alpha'', c)], token_ttl = 3600, max_workers = 8, results = []\<rparr>
     = Inr ([], \<lparr>clients = [(''alpha'', c)], token_ttl = 3600, max_workers = 8, results = []\<rparr>)"
  "authenticate_all env now False \<lparr>clients = [(''alpha'', c)], token_ttl = 3600, max_workers = 8, results = []\<rparr>
     = Inl (KeyError ''alpha'')"
  by (simp_all add: refresh_expired_def authenticate_all_def needs_auth_def)


subsection \<open>The clients with a valid session\<close>

lemma results_mark_expired:
  "results (mark_expired now m) =
     map (\<lambda>(name, r).
        if status r = SUCCESS \<and> (\<exists>t. authenticated_at r = Some t \<and> t + token_ttl m \<le> now)
        then (name, \<lparr>ar_exchange = name, status = EXPIRED,
                     authenticated_at = authenticated_at r, error = None\<rparr>)
        else (name, r)) (results m)"
  by (simp add: mark_expired_def is_expired_iff)

lemma success_after_mark:
  "{name. \<exists>r. (name, r) \<in> set (results (mark_expired now m)) \<and> status r = SUCCESS}
   = {name. \<exists>r. (name, r) \<in> set (results m) \<and> status r = SUCCESS \<and> \<not> is_expired now m r}"
  by (auto simp: mark_expired_def split: if_splits) force


text \<open>
  \<^bold>\<open>Claim C5.\<close> At time \<open>now\<close>, \<^verbatim>\<open>authenticated_clients()\<close> returns a dictionary whose
  keys are exactly the sources whose result has status \<open>SUCCESS\<close> and
  \<open>authenticated_at + token_ttl > now\<close>, each with its own adapter. Before it returns,
  every result in \<open>SUCCESS\<close> whose age has reached \<open>token_ttl\<close> is replaced, under the
  same key, by a result in \<open>EXPIRED\<close> with the same \<open>authenticated_at\<close>; every other
  result is left as it was.
\<close>

theorem authenticated_clients_valid_sessions:
  assumes inv: "manager_inv m"
  shows "case authenticated_clients now m of
           (res, m') \<Rightarrow>
             (\<exists>cs. res = Inr cs
                \<and> fst ` set cs =
                    {name. \<exists>r t. (name, r) \<in> set (results m) \<and> status r = SUCCESS
                             \<and> authenticated_at r = Some t \<and> t + token_ttl m > now}
                \<and> distinct (map fst cs)
                \<and> (\<forall>(name, c) \<in> set cs. map_of (clients m) name = Some c))
             \<and> results m' =
                 map (\<lambda>(name, r).
                    if status r = SUCCESS \<and> (\<exists>t. authenticated_at r = Some t \<and> t + token_ttl m \<le> now)
                    then (name, \<lparr>ar_exchange = name, status = EXPIRED,
                                 authenticated_at = authenticated_at r, error = None\<rparr>)
                    else (name, r)) (results m)
             \<and> clients m' = clients m \<and> token_ttl m' = token_ttl m"
proof -
  let ?m' = "mark_expired now m"
  let ?cs = "map (\<lambda>(name, r). (name, the (map_of (clients m) name)))
               (filter (\<lambda>(name, r). status r = SUCCESS) (results ?m'))"
  have keys: "map fst (results ?m') = map fst (clients m)"
    using inv by (simp add: mark_expired_keys manager_inv_def)
  have cl: "clients ?m' = clients m" "token_ttl ?m' = token_ttl m"
    by (simp_all add: mark_expired_def)
  have "fst ` set (results ?m') \<subseteq> fst ` set (clients m)"
    using keys by (metis set_map subset_refl)
  then have coll: "collect_clients (clients m) (results ?m') = Inr ?cs"
    by (rule collect_clients_found)
  have dated: "\<And>name r. (name, r) \<in> set (results m) \<Longrightarrow> status r = SUCCESS
      \<Longrightarrow> \<exists>t. authenticated_at r = Some t"
    using inv by (auto simp: manager_inv_def list_all_iff)
  have "fst ` set ?cs = {name. \<exists>r. (name, r) \<in> set (results ?m') \<and> status r = SUCCESS}"
    by force
  also have "\<dots> = {name. \<exists>r. (name, r) \<in> set (results m) \<and> status r = SUCCESS
      \<and> \<not> is_expired now m r}"
    by (rule success_after_mark)
  also have "\<dots> = {name. \<exists>r t. (name, r) \<in> set (results m) \<and> status r = SUCCESS
      \<and> authenticated_at r = Some t \<and> t + token_ttl m > now}"
    using dated by (fastforce simp: is_expired_iff)
  finally have names: "fst ` set ?cs = {name. \<exists>r t. (name, r) \<in> set (results m)
      \<and> status r = SUCCESS \<and> authenticated_at r = Some t \<and> t + token_ttl m > now}" .
  have "distinct (map fst (results ?m'))"
    using inv keys by (simp add: manager_inv_def)
  then have "distinct (map fst (filter (\<lambda>(name, r). status r = SUCCESS) (results ?m')))"
    by (rule distinct_map_filter)
  moreover have "map fst ?cs = map fst (filter (\<lambda>(name, r). status r = SUCCESS) (results ?m'))"
    by (simp add: comp_def case_prod_beta)
  ultimately have dist: "distinct (map fst ?cs)" by (simp only:)
  have assoc: "\<forall>(name, c) \<in> set ?cs. map_of (clients m) name = Some c"
  proof (clarify)
    fix name c assume "(name, c) \<in> set ?cs"
    then obtain r where "(name, r) \<in> set (results ?m')" and c: "c = the (map_of (clients m) name)"
      by auto
    then have "name \<in> fst ` set (clients m)"
      using keys by (metis fst_conv image_eqI set_map)
    then obtain c' where "map_of (clients m) name = Some c'"
      by (metis domD dom_map_of_conv_image_fst)
    then show "map_of (clients m) name = Some c" using c by simp
  qed
  show ?thesis
    using coll names dist assoc cl results_mark_expired[of now m]
    by (simp add: authenticated_clients_def Let_def)
qed


theorem authenticated_clients_valid_sessions_witness:
  "manager_inv sample_manager
   \<and> authenticated_clients 4000 sample_manager =
     (Inr [(''beta'', 2)],
      sample_manager\<lparr>results :=
        [(''alpha'', \<lparr>ar_exchange = ''alpha'', status = EXPIRED,
                      authenticated_at = Some 100, error = None\<rparr>),
         (''beta'', \<lparr>ar_exchange = ''beta'', status = SUCCESS,
                     authenticated_at = Some 1000, error = None\<rparr>),
         (''gamma'', \<lparr>ar_exchange = ''gamma'', status = FAILED,
                      authenticated_at = None, error = Some ''authenticate() returned False''\<rparr>)]\<rparr>)"
  using authenticated_clients_valid_sessions[OF sample_manager_inv, of 4000] sample_manager_inv
  by (simp add: authenticated_clients_def mark_expired_def is_expired_def sample_manager_def)


section \<open>Properties of the poll feed\<close>

lemma topics_append: "topics (xs @ ys) = topics xs @ topics ys"
  by (induction xs rule: topics.induct) simp_all

lemma publications_append: "publications (xs @ ys) = publications xs @ publications ys"
  by (induction xs rule: publications.induct) simp_all

lemma topics_publications: "topics es = map fst (publications es)"
  by (induction es rule: topics.induct) simp_all

lemma ensure_session_quiet: "publications (snd (ensure_session f c)) = []"
  by (auto simp: ensure_session_def split: sum.splits option.splits prod.splits)

lemma poll_cases:
  obtains (raised) e effs where "poll f c = (Inl e, f, effs)" "publications effs = []"
  | (returned) markets effs where "get_markets c (event_type_ids f) = Inr markets"
      "poll f c = (Inr (), f\<lparr>poll_count := poll_count f + 1, last_poll := Some (clock c)\<rparr>,
         effs @ [Publish (''odds.'' @ feed_name f) (feed_name f)
                   (MarketList (map (stamp (currency f)) markets))])"
      "publications effs = []"
proof -
  obtain r effs where es: "ensure_session f c = (r, effs)" by (cases "ensure_session f c")
  have q: "publications effs = []" using ensure_session_quiet[of f c] es by simp
  show thesis
  proof (cases r)
    case (Inl e)
    then have "poll f c = (Inl e, f, effs)" using es by (simp add: poll_def)
    then show ?thesis using q by (rule raised)
  next
    case (Inr u)
    show ?thesis
    proof (cases "get_markets c (event_type_ids f)")
      case (Inl e)
      then have "poll f c = (Inl e, f, effs)" using es Inr by (simp add: poll_def)
      then show ?thesis using q by (rule raised)
    next
      case inr: (Inr markets)
      then have "poll f c = (Inr (), f\<lparr>poll_count := poll_count f + 1, last_poll := Some (clock c)\<rparr>,
         effs @ [Publish (''odds.'' @ feed_name f) (feed_name f)
                   (MarketList (map (stamp (currency f)) markets))])"
        using es Inr by (simp add: poll_def)
      with inr show ?thesis using q by (rule returned)
    qed
  qed
qed

lemma loop_step:
  "loop f first_run (c # cs) =
     (if stop_is_set c then (f, [])
      else (fst (loop (fst (cycle_body f first_run c)) (fst (snd (cycle_body f first_run c))) cs),
            snd (snd (cycle_body f first_run c))
              @ snd (loop (fst (cycle_body f first_run c)) (fst (snd (cycle_body f first_run c))) cs)))"
  by (simp split: prod.splits)

lemma sample_bad_cycle:
  "publications (snd (snd (cycle_body sample_feed False bad_cycle)))
     = [(''feed.error.alpha'', ''alpha'', ErrorInfo ''timed out'')]"
  by (simp add: cycle_body_def poll_def ensure_session_def sample_refresh ok_def
      sample_feed_def new_odds_feed_def bad_cycle_def)


text \<open>
  \<^bold>\<open>Claim C7.\<close> In a poll cycle, \<^verbatim>\<open>odds.<source>\<close> is published only when the poll succeeds,
  and then with the stamped snapshot. A cycle in which the poll raises an exception
  publishes no \<^verbatim>\<open>odds.<source>\<close> event; it publishes \<^verbatim>\<open>feed.error.<source>\<close> with the text
  of the exception as payload, and nothing else. After either kind of cycle the loop goes
  on with the next turn, unless it has been stopped.
\<close>

theorem poll_cycle_publishes:
  "case cycle_body f first_run c of
     (f', first_run', effs) \<Rightarrow>
       (case fst (poll f c) of
          Inl e \<Rightarrow>
            publications effs
              = [(''feed.error.'' @ feed_name f, feed_name f, ErrorInfo (str_exn e))]
            \<and> first_run' = first_run
        | Inr u \<Rightarrow>
            (\<exists>markets. get_markets c (event_type_ids f) = Inr markets
               \<and> publications effs
                   = (''odds.'' @ feed_name f, feed_name f,
                      MarketList (map (stamp (currency f)) markets))
                     # (if first_run then [(''feed.started.'' @ feed_name f, feed_name f, NoData)]
                        else []))
            \<and> first_run' = False)
       \<and> ((''odds.'' @ feed_name f) \<in> set (topics effs) \<longleftrightarrow> fst (poll f c) = Inr ())
       \<and> (\<forall>cs. snd (loop f first_run (c # cs))
                 = (if stop_is_set c then [] else effs @ snd (loop f' first_run' cs)))"
proof (cases rule: poll_cases[of f c])
  case (raised e effs)
  then show ?thesis
    by (simp add: cycle_body_def publications_append topics_publications case_prod_beta)
next
  case (returned markets effs)
  then show ?thesis
    by (simp add: cycle_body_def publications_append topics_publications case_prod_beta)
qed


theorem poll_cycle_publishes_witness:
  "fst (poll sample_feed bad_cycle) = Inl (OtherError ''timed out'')
   \<and> publications (snd (snd (cycle_body sample_feed False bad_cycle)))
       = [(''feed.error.alpha'', ''alpha'', ErrorInfo ''timed out'')]
   \<and> ''odds.alpha'' \<notin> set (topics (snd (snd (cycle_body sample_feed False bad_cycle))))"
proof -
  have p: "fst (poll sample_feed bad_cycle) = Inl (OtherError ''timed out'')"
    by (simp add: poll_def ensure_session_def sample_refresh ok_def
        sample_feed_def new_odds_feed_def bad_cycle_def)
  have n: "feed_name sample_feed = ''alpha''"
    by (simp add: sample_feed_def new_odds_feed_def)
  show ?thesis
    using poll_cycle_publishes[of sample_feed False bad_cycle] p n
    by (simp add: case_prod_beta)
qed


subsection \<open>The started event\<close>

lemma once_after_Nil: "once_after s od []"
  by (simp add: once_after_def)

lemma once_after_absent: "s \<notin> set xs \<Longrightarrow> once_after s od xs"
  by (auto simp: once_after_def count_list_0_iff)

lemma once_after_Cons:
  assumes "once_after s od xs" "e \<noteq> s"
  shows "once_after s od (e # xs)"
  unfolding once_after_def
proof (intro conjI allI impI)
  show "count_list (e # xs) s \<le> 1" using assms by (simp add: once_after_def)
next
  fix i assume i: "i < length (e # xs)" and at: "(e # xs) ! i = s"
  then obtain k where k: "i = Suc k" using assms(2) by (cases i) auto
  then have "k < length xs" "xs ! k = s" using i at by simp_all
  then obtain j where "j < k" "xs ! j = od" using assms(1) by (auto simp: once_after_def)
  then have "Suc j < i \<and> (e # xs) ! Suc j = od" using k by simp
  then show "\<exists>j<i. (e # xs) ! j = od" by blast
qed

lemma once_after_first:
  assumes "s \<notin> set xs" "od \<noteq> s"
  shows "once_after s od (od # s # xs)"
  unfolding once_after_def
proof (intro conjI allI impI)
  show "count_list (od # s # xs) s \<le> 1" using assms by (simp add: count_list_0_iff)
next
  fix i assume i: "i < length (od # s # xs)" and at: "(od # s # xs) ! i = s"
  show "\<exists>j<i. (od # s # xs) ! j = od"
  proof (cases i)
    case 0
    then have "od = s" using at by simp
    then show ?thesis using assms(2) by simp
  next
    case (Suc k)
    then show ?thesis by (intro exI[of _ 0]) simp
  qed
qed

lemma once_after_snoc:
  assumes "once_after s od xs" "e \<noteq> s"
  shows "once_after s od (xs @ [e])"
  unfolding once_after_def
proof (intro conjI allI impI)
  show "count_list (xs @ [e]) s \<le> 1" using assms by (simp add: once_after_def)
next
  fix i assume i: "i < length (xs @ [e])" and at: "(xs @ [e]) ! i = s"
  have "i < length xs" using i at assms(2) by (cases "i = length xs") auto
  then have "xs ! i = s" using at by (simp add: nth_append)
  then obtain j where "j < i" "xs ! j = od" using assms(1) \<open>i < length xs\<close>
    by (auto simp: once_after_def)
  then have "(xs @ [e]) ! j = od" using \<open>i < length xs\<close> by (simp add: nth_append)
  then show "\<exists>j<i. (xs @ [e]) ! j = od" using \<open>j < i\<close> by blast
qed

lemma cycle_body_cases:
  obtains (failed) effs where
      "cycle_body f first_run c = (f, first_run, effs)"
      "topics effs = [''feed.error.'' @ feed_name f]"
  | (polled) f' effs where
      "cycle_body f first_run c = (f', False, effs)" "feed_name f' = feed_name f"
      "topics effs = (''odds.'' @ feed_name f)
         # (if first_run then [''feed.started.'' @ feed_name f] else [])"
proof (cases rule: poll_cases[of f c])
  case (raised e effs)
  have "cycle_body f first_run c = (f, first_run,
      effs @ [LogError (''poll error: '' @ str_exn e),
              Publish (''feed.error.'' @ feed_name f) (feed_name f) (ErrorInfo (str_exn e))])"
    using raised by (simp add: cycle_body_def)
  moreover have "topics (effs @ [LogError (''poll error: '' @ str_exn e),
              Publish (''feed.error.'' @ feed_name f) (feed_name f) (ErrorInfo (str_exn e))])
      = [''feed.error.'' @ feed_name f]"
    using raised by (simp add: publications_append topics_publications)
  ultimately show ?thesis by (rule failed)
next
  case (returned markets effs)
  let ?f' = "f\<lparr>poll_count := poll_count f + 1, last_poll := Some (clock c)\<rparr>"
  let ?effs = "(effs @ [Publish (''odds.'' @ feed_name f) (feed_name f)
                   (MarketList (map (stamp (currency f)) markets))])
       @ (if first_run then [Publish (''feed.started.'' @ feed_name f) (feed_name f) NoData] else [])"
  have "cycle_body f first_run c = (?f', False, ?effs)"
    using returned by (simp add: cycle_body_def)
  moreover have "feed_name ?f' = feed_name f" by simp
  moreover have "topics ?effs = (''odds.'' @ feed_name f)
         # (if first_run then [''feed.started.'' @ feed_name f] else [])"
    using returned by (simp add: publications_append topics_publications)
  ultimately show ?thesis by (rule polled)
qed

lemma loop_feed_name: "feed_name (fst (loop f first_run cs)) = feed_name f"
proof (induction cs arbitrary: f first_run)
  case Nil
  then show ?case by simp
next
  case (Cons c cs)
  show ?case
  proof (cases rule: cycle_body_cases[of f first_run c])
    case (failed effs)
    then show ?thesis using Cons.IH[of f first_run] by (simp add: case_prod_beta)
  next
    case (polled f' effs)
    then show ?thesis using Cons.IH[of f' False] by (simp add: case_prod_beta)
  qed
qed

lemma loop_not_first:
  "''feed.started.'' @ feed_name f \<notin> set (topics (snd (loop f False cs)))"
proof (induction cs arbitrary: f)
  case Nil
  then show ?case by simp
next
  case (Cons c cs)
  show ?case
  proof (cases rule: cycle_body_cases[of f False c])
    case (failed effs)
    then show ?thesis using Cons.IH[of f] by (simp add: case_prod_beta topics_append)
  next
    case (polled f' effs)
    then show ?thesis using Cons.IH[of f'] by (simp add: case_prod_beta topics_append)
  qed
qed

lemma loop_first:
  "once_after (''feed.started.'' @ feed_name f) (''odds.'' @ feed_name f)
     (topics (snd (loop f True cs)))"
proof (induction cs arbitrary: f)
  case Nil
  then show ?case by (simp add: once_after_Nil)
next
  case (Cons c cs)
  show ?case
  proof (cases "stop_is_set c")
    case True
    then show ?thesis by (simp add: once_after_Nil)
  next
    case False
    show ?thesis
    proof (cases rule: cycle_body_cases[of f True c])
      case (failed effs)
      have "once_after (''feed.started.'' @ feed_name f) (''odds.'' @ feed_name f)
          ((''feed.error.'' @ feed_name f) # topics (snd (loop f True cs)))"
        by (rule once_after_Cons[OF Cons.IH]) simp
      then show ?thesis using failed False by (simp add: case_prod_beta topics_append)
    next
      case (polled f' effs)
      have "''feed.started.'' @ feed_name f \<notin> set (topics (snd (loop f' False cs)))"
        using loop_not_first[of f' cs] polled(2) by simp
      then have "once_after (''feed.started.'' @ feed_name f) (''odds.'' @ feed_name f)
          ((''odds.'' @ feed_name f) # (''feed.started.'' @ feed_name f)
             # topics (snd (loop f' False cs)))"
        by (rule once_after_first) simp
      then show ?thesis using polled False by (simp add: case_prod_beta topics_append)
    qed
  qed
qed

lemma sample_episode:
  "topics (snd (episode sample_feed [good_cycle, bad_cycle, good_cycle]))
     = [''odds.alpha'', ''feed.started.alpha'', ''feed.error.alpha'', ''odds.alpha'',
        ''feed.stopped.alpha'']"
  by (simp add: episode_def start_def stop_def run_loop_def cycle_body_def poll_def
      ensure_session_def sample_refresh ok_def
      sample_feed_def new_odds_feed_def bad_cycle_def good_cycle_def)


text \<open>
  \<^bold>\<open>Claim C8.\<close> Among the events that a feed publishes in an episode, from \<^verbatim>\<open>start()\<close> to
  \<^verbatim>\<open>stop()\<close>, \<^verbatim>\<open>feed.started.<source>\<close> occurs at most once, and where it occurs an
  \<^verbatim>\<open>odds.<source>\<close> event of the same episode, the publication of a successful poll,
  occurs before it.
\<close>

theorem started_once_after_first_poll:
  "let tr = topics (snd (episode f cs));
       started = ''feed.started.'' @ feed_name f;
       polled = ''odds.'' @ feed_name f
   in count_list tr started \<le> 1
      \<and> (\<forall>i < length tr. tr ! i = started \<longrightarrow> (\<exists>j < i. tr ! j = polled))"
proof -
  let ?f1 = "f\<lparr>stop_event := False, has_thread := True\<rparr>"
  have n: "feed_name (fst (loop ?f1 True cs)) = feed_name f"
    by (simp add: loop_feed_name)
  have tr: "topics (snd (episode f cs))
      = topics (snd (loop ?f1 True cs)) @ [''feed.stopped.'' @ feed_name f]"
    using n by (simp add: episode_def start_def run_loop_def stop_def case_prod_beta topics_append)
  have "once_after (''feed.started.'' @ feed_name ?f1) (''odds.'' @ feed_name ?f1)
      (topics (snd (loop ?f1 True cs)))"
    by (rule loop_first)
  then have "once_after (''feed.started.'' @ feed_name f) (''odds.'' @ feed_name f)
      (topics (snd (loop ?f1 True cs)))"
    by simp
  then have "once_after (''feed.started.'' @ feed_name f) (''odds.'' @ feed_name f)
      (topics (snd (loop ?f1 True cs)) @ [''feed.stopped.'' @ feed_name f])"
    by (rule once_after_snoc) simp
  then show ?thesis
    unfolding tr[symmetric] once_after_def Let_def .
qed

theorem started_once_after_first_poll_witness:
  "topics (snd (episode sample_feed [good_cycle, bad_cycle, good_cycle])) ! 1 = ''feed.started.alpha''
   \<and> topics (snd (episode sample_feed [good_cycle, bad_cycle, good_cycle])) ! 0 = ''odds.alpha''
   \<and> count_list (topics (snd (episode sample_feed [good_cycle, bad_cycle, good_cycle])))
        ''feed.started.alpha'' = 1"
  using started_once_after_first_poll[of sample_feed "[good_cycle, bad_cycle, good_cycle]"]
  by (simp add: sample_episode)


subsection \<open>Stopping twice\<close>

text \<open>
  \<^bold>\<open>Claim C9\<close> says that a second \<^verbatim>\<open>stop()\<close> changes nothing and that two calls have the
  observable effects of one. The second half fails: the events published by two calls
  are not those published by one.
\<close>

theorem stop_twice_publishes_twice:
  "\<not> (case stop sample_feed of
         (f1, e1) \<Rightarrow>
           (case stop f1 of
              (f2, e2) \<Rightarrow> f2 = f1 \<and> publications (e1 @ e2) = publications e1))"
  by (simp add: stop_def sample_feed_def new_odds_feed_def)


text \<open>
  \<^bold>\<open>Claim C9, amended.\<close> A second call of \<^verbatim>\<open>stop()\<close> leaves the state of the feed as the
  first call left it, and has the effects that the first call had: every call of
  \<^verbatim>\<open>stop()\<close> publishes \<^verbatim>\<open>feed.stopped.<source>\<close> once, so that two calls publish it twice.
\<close>

theorem stop_repeats_its_effects:
  "case stop f of
     (f1, e1) \<Rightarrow>
       (case stop f1 of
          (f2, e2) \<Rightarrow>
            f2 = f1 \<and> e2 = e1
            \<and> publications e2 = [(''feed.stopped.'' @ feed_name f, feed_name f, NoData)]
            \<and> publications (e1 @ e2)
                = [(''feed.stopped.'' @ feed_name f, feed_name f, NoData),
                   (''feed.stopped.'' @ feed_name f, feed_name f, NoData)])"
  by (simp add: stop_def publications_append)



section \<open>Properties of the file store\<close>

lemma record_id_to_dict: "record_id (JObj (to_dict l)) = Inr (JStr (lid l))"
  by (simp add: to_dict_def)

lemma record_ids_append:
  "record_ids xs = Inr a \<Longrightarrow> record_ids ys = Inr b \<Longrightarrow> record_ids (xs @ ys) = Inr (a @ b)"
proof (induction xs arbitrary: a)
  case Nil
  then show ?case by simp
next
  case (Cons x xs)
  then show ?case by (auto split: sum.splits)
qed

lemma record_ids_new: "record_ids (map (\<lambda>l. JObj (to_dict l)) ls) = Inr (map (\<lambda>l. JStr (lid l)) ls)"
  by (induction ls) (simp_all add: record_id_to_dict del: record_id.simps)

lemma mergeable_ids:
  assumes "mergeable f"
  shows "record_ids (old_records f) = Inr (stored_ids f)"
  using assms
  by (auto simp: mergeable_def old_records_def stored_ids_def
      split: file_state.splits json.splits sum.splits)

lemma stored_ids_merged:
  assumes "mergeable f"
  shows "stored_ids (merged f listings) = stored_ids f @ map (\<lambda>l. JStr (lid l)) (fresh f listings)"
proof (cases "fresh f listings = []")
  case True
  then show ?thesis by (simp add: merged_def)
next
  case False
  have "record_ids (old_records f @ map (\<lambda>l. JObj (to_dict l)) (fresh f listings))
      = Inr (stored_ids f @ map (\<lambda>l. JStr (lid l)) (fresh f listings))"
    by (rule record_ids_append[OF mergeable_ids[OF assms] record_ids_new])
  then show ?thesis using False by (simp add: merged_def stored_ids_def)
qed

lemma load_existing_ok:
  assumes "read_result env p = ReadOk" "mergeable (files w p)"
  shows "fst (load_existing env p w) = Inr (JArr (old_records (files w p)))
     \<and> files (snd (load_existing env p w)) = files w"
  using assms
  by (auto simp: load_existing_def Let_def mergeable_def old_records_def
      split: file_state.splits json.splits)

lemma merge_and_write_ok:
  assumes "mkdir_error env (butlast p) = None" "read_result env p = ReadOk"
    "write_result env p = Written" "mergeable (files w p)"
  shows "fst (merge_and_write env p listings w) = Inr (length (fresh (files w p) listings))
     \<and> files (snd (merge_and_write env p listings w))
         = (files w)(p := merged (files w p) listings)"
proof -
  let ?w1 = "w\<lparr>ops := ops w @ [Mkdir (butlast p)]\<rparr>"
  obtain r w2 where le: "load_existing env p ?w1 = (r, w2)" by (cases "load_existing env p ?w1")
  have m1: "mergeable (files ?w1 p)" using assms(4) by simp
  from load_existing_ok[OF assms(2) m1] le
  have r: "r = Inr (JArr (old_records (files w p)))" and f2: "files w2 = files w"
    by simp_all
  have ids: "existing_ids (JArr (old_records (files w p))) = Inr (stored_ids (files w p))"
    using mergeable_ids[OF assms(4)] by (simp add: existing_ids_def)
  show ?thesis
  proof (cases "fresh (files w p) listings = []")
    case True
    then show ?thesis
      using assms(1) le r f2 ids by (simp add: merge_and_write_def Let_def fresh_def merged_def)
  next
    case False
    then show ?thesis
      using assms(1,3) le r f2 ids
      by (simp add: merge_and_write_def Let_def fresh_def merged_def comp_def)
  qed
qed

lemma write_group_ok:
  assumes "io_ok env p" "mergeable (files w p)"
  shows "fst (write_group env p listings w) = length (fresh (files w p) listings)
     \<and> files (snd (write_group env p listings w)) = (files w)(p := merged (files w p) listings)"
proof -
  let ?w0 = "w\<lparr>ops := ops w @ [AcquireLock (lock_path p)]\<rparr>"
  have m: "mergeable (files ?w0 p)" using assms(2) by simp
  have io: "mkdir_error env (butlast p) = None" "read_result env p = ReadOk"
    "write_result env p = Written" "lock_result env (lock_path p) = Acquired"
    using assms(1) by (simp_all add: io_ok_def)
  obtain r w' where mw: "merge_and_write env p listings ?w0 = (r, w')"
    by (cases "merge_and_write env p listings ?w0")
  from merge_and_write_ok[OF io(1,2,3) m, of listings] mw
  have "r = Inr (length (fresh (files w p) listings))"
    "files w' = (files w)(p := merged (files w p) listings)"
    by simp_all
  then show ?thesis using io(4) mw by (simp add: write_group_def)
qed

lemma write_group_timeout:
  "lock_result env (lock_path p) = TimedOut \<Longrightarrow>
   fst (write_group env p listings w) = 0 \<and> files (snd (write_group env p listings w)) = files w
   \<and> ops (snd (write_group env p listings w)) = ops w"
  by (simp add: write_group_def)


lemma load_existing_files: "files (snd (load_existing env p w)) = files w"
  by (auto simp: load_existing_def Let_def split: file_state.splits read_outcome.splits)

lemma merge_and_write_frame:
  assumes "q \<noteq> p"
  shows "files (snd (merge_and_write env p listings w)) q = files w q"
proof -
  let ?w1 = "w\<lparr>ops := ops w @ [Mkdir (butlast p)]\<rparr>"
  obtain r w2 where le: "load_existing env p ?w1 = (r, w2)" by (cases "load_existing env p ?w1")
  have f2: "files w2 = files w" using load_existing_files[of env p ?w1] le by simp
  show ?thesis
    using assms le f2
    by (auto simp: merge_and_write_def Let_def
        split: option.splits sum.splits json.splits write_outcome.splits)
qed

lemma write_group_frame:
  assumes "q \<noteq> p"
  shows "files (snd (write_group env p listings w)) q = files w q"
proof -
  let ?w0 = "w\<lparr>ops := ops w @ [AcquireLock (lock_path p)]\<rparr>"
  obtain r w' where mw: "merge_and_write env p listings ?w0 = (r, w')"
    by (cases "merge_and_write env p listings ?w0")
  have "files w' q = files w q"
    using merge_and_write_frame[OF assms, of env listings ?w0] mw by simp
  then show ?thesis
    using mw by (cases "lock_result env (lock_path p)"; cases r) (simp_all add: write_group_def)
qed

lemma write_groups_absent:
  "D \<notin> fst ` set gs \<Longrightarrow> files (snd (write_groups env gs t w)) D = files w D"
proof (induction gs arbitrary: t w)
  case Nil
  then show ?case by simp
next
  case (Cons pg gs)
  obtain p g where pg: "pg = (p, g)" by (cases pg)
  obtain n w1 where wg: "write_group env p g w = (n, w1)" by (cases "write_group env p g w")
  have "D \<noteq> p" using Cons.prems pg by auto
  then have "files w1 D = files w D" using write_group_frame[of D p env g w] wg by simp
  moreover have "files (snd (write_groups env gs (t + n) w1)) D = files w1 D"
    using Cons by simp
  ultimately show ?case using pg wg by simp
qed

lemma write_groups_ok:
  assumes "io_ok env D" "mergeable (files w D)" "distinct (map fst gs)"
  shows "files (snd (write_groups env gs t w)) D
     = (case map_of gs D of None \<Rightarrow> files w D | Some g \<Rightarrow> merged (files w D) g)"
  using assms(2,3)
proof (induction gs arbitrary: t w)
  case Nil
  then show ?case by simp
next
  case (Cons pg gs)
  obtain p g where pg: "pg = (p, g)" by (cases pg)
  obtain n w1 where wg: "write_group env p g w = (n, w1)" by (cases "write_group env p g w")
  show ?case
  proof (cases "p = D")
    case True
    have "files w1 = (files w)(D := merged (files w D) g)"
      using write_group_ok[OF assms(1) Cons.prems(1), of g] wg True by simp
    moreover have "D \<notin> fst ` set gs" using Cons.prems(2) pg True by auto
    then have "files (snd (write_groups env gs (t + n) w1)) D = files w1 D"
      by (rule write_groups_absent)
    ultimately show ?thesis using pg wg True by simp
  next
    case False
    then have same: "files w1 D = files w D"
      using write_group_frame[of D p env g w] wg by simp
    have "files (snd (write_groups env gs (t + n) w1)) D
        = (case map_of gs D of None \<Rightarrow> files w1 D | Some g \<Rightarrow> merged (files w1 D) g)"
      using Cons.IH[of w1 "t + n"] Cons.prems same by simp
    then have "files (snd (write_groups env gs (t + n) w1)) D
        = (case map_of gs D of None \<Rightarrow> files w D | Some g \<Rightarrow> merged (files w D) g)"
      unfolding same .
    then show ?thesis using pg wg False by simp
  qed
qed

lemma write_groups_timeout:
  assumes "lock_result env (lock_path D) = TimedOut"
  shows "files (snd (write_groups env gs t w)) D = files w D"
proof (induction gs arbitrary: t w)
  case Nil
  then show ?case by simp
next
  case (Cons pg gs)
  obtain p g where pg: "pg = (p, g)" by (cases pg)
  obtain n w1 where wg: "write_group env p g w = (n, w1)" by (cases "write_group env p g w")
  have "files w1 D = files w D"
  proof (cases "p = D")
    case True
    then show ?thesis using write_group_timeout[OF assms, of g w] wg by simp
  next
    case False
    then show ?thesis using write_group_frame[of D p env g w] wg by simp
  qed
  then show ?case using Cons.IH[of "t + n" w1] pg wg by simp
qed

lemma add_to_group_keys:
  "distinct (map fst gs) \<Longrightarrow> distinct (map fst (add_to_group gs p l))"
  by (auto simp: add_to_group_def distinct_update split: option.splits
      dest: map_of_SomeD simp: map_of_eq_None_iff)

lemma map_of_add_to_group:
  "map_of (add_to_group gs p l) D =
     (if D = p then Some ((case map_of gs p of None \<Rightarrow> [] | Some g \<Rightarrow> g) @ [l])
      else map_of gs D)"
proof (cases "map_of gs p")
  case None
  then have "map_of (add_to_group gs p l) D
      = (case map_of gs D of None \<Rightarrow> [p \<mapsto> [l]] D | Some g \<Rightarrow> Some g)"
    by (simp add: add_to_group_def map_add_def)
  then show ?thesis using None by (cases "map_of gs D") auto
next
  case (Some g)
  then show ?thesis by (simp add: add_to_group_def update_conv')
qed

lemma grouping:
  assumes "distinct (map fst gs)"
  shows "distinct (map fst (foldl (\<lambda>groups l. add_to_group groups (key l) l) gs ls))
     \<and> map_of (foldl (\<lambda>groups l. add_to_group groups (key l) l) gs ls) D =
         (case map_of gs D of
            None \<Rightarrow> (if filter (\<lambda>l. key l = D) ls = [] then None
                      else Some (filter (\<lambda>l. key l = D) ls))
          | Some g \<Rightarrow> Some (g @ filter (\<lambda>l. key l = D) ls))"
  using assms
proof (induction ls arbitrary: gs)
  case Nil
  then show ?case by (simp split: option.splits)
next
  case (Cons l ls)
  have d: "distinct (map fst (add_to_group gs (key l) l))"
    by (rule add_to_group_keys[OF Cons.prems])
  show ?case
    using Cons.IH[OF d]
    by (auto simp: map_of_add_to_group split: option.splits)
qed

lemma group_listings_map:
  "distinct (map fst (group_listings dd R))
   \<and> map_of (group_listings dd R) D =
       (if filter (\<lambda>l. resolve_path dd l = D) R = [] then None
        else Some (filter (\<lambda>l. resolve_path dd l = D) R))"
  using grouping[of "[]" "resolve_path dd" R D]
  by (simp add: group_listings_def)

lemma merged_Nil: "merged f [] = f"
  by (simp add: merged_def fresh_def)

lemma save_files_ok:
  assumes "io_ok env D" "mergeable (files w D)"
  shows "files (snd (save env dd R w)) D = merged (files w D) (filter (\<lambda>l. resolve_path dd l = D) R)"
proof (cases "R = []")
  case True
  then show ?thesis by (simp add: save_def merged_Nil)
next
  case False
  have "files (snd (write_groups env (group_listings dd R) 0 w)) D
      = (case map_of (group_listings dd R) D of
           None \<Rightarrow> files w D | Some g \<Rightarrow> merged (files w D) g)"
    using write_groups_ok[OF assms] group_listings_map[of dd R D] by blast
  then show ?thesis
    using False group_listings_map[of dd R D] by (simp add: save_def merged_Nil)
qed

lemma save_files_timeout:
  assumes "lock_result env (lock_path D) = TimedOut"
  shows "files (snd (save env dd R w)) D = files w D"
  using write_groups_timeout[OF assms] by (simp add: save_def)


lemma sample_before: "stored_ids (files sample_world sample_dest) = [JStr ''A'']"
  by (simp add: sample_world_def stored_ids_def to_dict_def listing_a_def)

lemma sample_routes:
  "resolve_path ''data'' listing_a = sample_dest"
  "resolve_path ''data'' listing_b = sample_dest"
  "resolve_path ''data'' listing_c \<noteq> sample_dest"
  by (simp_all add: resolve_path_def sample_dest_def listing_a_def listing_b_def listing_c_def)

lemma sample_lids: "lid listing_a = ''A''" "lid listing_b = ''B''" "lid listing_c = ''C''"
  by (simp_all add: listing_a_def listing_b_def listing_c_def)


text \<open>
  \<^bold>\<open>Claim C1\<close> says that after every \<^verbatim>\<open>save(R)\<close> the keys stored in a destination are
  the keys stored before together with the new keys of the records of \<open>R\<close> routed to it.
  When the lock of the destination is held elsewhere for longer than the timeout, the
  records routed to it are dropped and the new key is not stored.
\<close>

theorem lock_timeout_drops_new_key:
  "set (stored_ids (files (snd (save timeout_env ''data'' [listing_b] sample_world)) sample_dest))
   \<noteq> set (stored_ids (files sample_world sample_dest))
       \<union> set (map (\<lambda>l. JStr (lid l))
            (filter (\<lambda>l. JStr (lid l) \<notin> set (stored_ids (files sample_world sample_dest)))
               (filter (\<lambda>l. resolve_path ''data'' l = sample_dest) [listing_b])))"
proof -
  have "files (snd (save timeout_env ''data'' [listing_b] sample_world)) sample_dest
      = files sample_world sample_dest"
    by (rule save_files_timeout) (simp add: timeout_env_def)
  then show ?thesis
    by (simp add: sample_before sample_routes sample_lids)
qed


text \<open>
  \<^bold>\<open>Claim C1, amended.\<close> For every list of records \<open>R\<close> and every destination file \<open>D\<close>:
  if the lock of \<open>D\<close> is acquired, no call on the file system fails, and \<open>D\<close> is
  missing, is not JSON, or holds an array of records, then after \<^verbatim>\<open>save(R)\<close> the set of
  identity keys stored in \<open>D\<close> is the set stored before together with the keys of the
  records of \<open>R\<close> routed to \<open>D\<close> that were not stored before, and no key that was stored
  before is stored once more. If the lock of \<open>D\<close> times out, \<open>D\<close> is as it was.
\<close>

theorem save_merges_new_keys:
  "let before = stored_ids (files w D);
       routed = filter (\<lambda>l. resolve_path dd l = D) R;
       new_keys = map (\<lambda>l. JStr (lid l)) (filter (\<lambda>l. JStr (lid l) \<notin> set before) routed);
       after = stored_ids (files (snd (save env dd R w)) D)
   in (io_ok env D \<and> mergeable (files w D) \<longrightarrow>
         set after = set before \<union> set new_keys
         \<and> (\<forall>k \<in> set before. count_list after k = count_list before k))
      \<and> (lock_result env (lock_path D) = TimedOut \<longrightarrow>
            files (snd (save env dd R w)) D = files w D)"
proof -
  define before where "before = stored_ids (files w D)"
  define routed where "routed = filter (\<lambda>l. resolve_path dd l = D) R"
  define new_keys where
    "new_keys = map (\<lambda>l. JStr (lid l)) (filter (\<lambda>l. JStr (lid l) \<notin> set before) routed)"
  define after where "after = stored_ids (files (snd (save env dd R w)) D)"
  have ok: "set after = set before \<union> set new_keys
      \<and> (\<forall>k \<in> set before. count_list after k = count_list before k)"
    if io: "io_ok env D" and m: "mergeable (files w D)"
  proof -
    have "files (snd (save env dd R w)) D = merged (files w D) routed"
      unfolding routed_def by (rule save_files_ok[OF io m])
    then have a: "after = before @ new_keys"
      using stored_ids_merged[OF m, of routed]
      by (simp add: after_def before_def new_keys_def fresh_def)
    have "k \<notin> set new_keys" if "k \<in> set before" for k
      using that by (auto simp: new_keys_def)
    then have "\<forall>k \<in> set before. count_list after k = count_list before k"
      by (simp add: a count_list_0_iff)
    then show ?thesis using a by simp
  qed
  have timeout: "files (snd (save env dd R w)) D = files w D"
    if "lock_result env (lock_path D) = TimedOut"
    by (rule save_files_timeout[OF that])
  show ?thesis
    using ok timeout
    unfolding Let_def before_def[symmetric] routed_def[symmetric] new_keys_def[symmetric]
      after_def[symmetric]
    by blast
qed

theorem save_merges_new_keys_witness:
  "io_ok ok_env sample_dest \<and> mergeable (files sample_world sample_dest)
   \<and> set (stored_ids (files (snd (save ok_env ''data'' [listing_a, listing_b, listing_c] sample_world))
                        sample_dest))
       = {JStr ''A'', JStr ''B''}
   \<and> lock_result timeout_env (lock_path sample_dest) = TimedOut
   \<and> files (snd (save timeout_env ''data'' [listing_a, listing_b, listing_c] sample_world)) sample_dest
       = files sample_world sample_dest"
proof -
  have io: "io_ok ok_env sample_dest"
    by (simp add: io_ok_def ok_env_def)
  have m: "mergeable (files sample_world sample_dest)"
    by (simp add: mergeable_def sample_world_def to_dict_def)
  have t: "lock_result timeout_env (lock_path sample_dest) = TimedOut"
    by (simp add: timeout_env_def)
  have nk: "map (\<lambda>l. JStr (lid l))
      (filter (\<lambda>l. JStr (lid l) \<notin> set [JStr ''A''])
         (filter (\<lambda>l. resolve_path ''data'' l = sample_dest) [listing_a, listing_b, listing_c]))
      = [JStr ''B'']"
    by (simp add: sample_routes sample_lids)
  note th = save_merges_new_keys[of sample_world sample_dest "''data''"
      "[listing_a, listing_b, listing_c]" ok_env, unfolded Let_def sample_before nk]
  from th io m
  have "set (stored_ids (files (snd (save ok_env ''data'' [listing_a, listing_b, listing_c]
      sample_world)) sample_dest)) = set [JStr ''A''] \<union> set [JStr ''B'']"
    by blast
  then have 1: "set (stored_ids (files (snd (save ok_env ''data'' [listing_a, listing_b, listing_c]
      sample_world)) sample_dest)) = {JStr ''A'', JStr ''B''}"
    by auto
  from save_merges_new_keys[of sample_world sample_dest "''data''"
      "[listing_a, listing_b, listing_c]" timeout_env] t
  have 2: "files (snd (save timeout_env ''data'' [listing_a, listing_b, listing_c] sample_world))
      sample_dest = files sample_world sample_dest"
    by (simp add: Let_def)
  show ?thesis using io m t 1 2 by simp
qed


text \<open>Two listings of one batch with the same key and the same destination.\<close>

lemma same_key_twice_in_one_batch:
  "stored_ids (files (snd (save ok_env ''data'' [listing_b, listing_b]
      \<lparr>files = (\<lambda>p. Missing), ops = [], store_log = []\<rparr>)) sample_dest)
   = [JStr ''B'', JStr ''B'']"
proof -
  let ?w = "\<lparr>files = (\<lambda>p. Missing), ops = [], store_log = []\<rparr>"
  have "files (snd (save ok_env ''data'' [listing_b, listing_b] ?w)) sample_dest
      = merged (files ?w sample_dest)
          (filter (\<lambda>l. resolve_path ''data'' l = sample_dest) [listing_b, listing_b])"
    by (rule save_files_ok) (simp_all add: io_ok_def ok_env_def mergeable_def)
  then show ?thesis
    by (simp add: sample_routes merged_def fresh_def stored_ids_def old_records_def
        record_id_to_dict sample_lids del: record_id.simps)
qed


text \<open>
  \<^bold>\<open>Claim C10.\<close> On the empty list \<^verbatim>\<open>save\<close> returns 0 and does nothing to the file system:
  the files are as they were, and no lock is acquired, no directory made, no file read
  or written.
\<close>

theorem save_nothing:
  "save env dd [] w = (0, w)
   \<and> fst (save env dd [] w) = 0
   \<and> files (snd (save env dd [] w)) = files w
   \<and> ops (snd (save env dd [] w)) = ops w"
  by (simp add: save_def)


end
